theory Spec2Isabelle
  imports Complex_Main "HOL-Library.Multiset"
begin

section \<open>The mesh data model\<close>

text \<open>
  The operations of \<^verbatim>\<open>geometry/meshop.cpp\<close> work on an indexed triangle mesh. A face
  holds three vertex indices, three texture indices and a surface tag
  (\<^verbatim>\<open>face.imageId\<close>, read by \<^verbatim>\<open>saveAsObj\<close>). Indices are \<^verbatim>\<open>size_t\<close> and are modelled
  as \<open>nat\<close>. The \<^verbatim>\<open>int\<close> keys that \<^verbatim>\<open>removeNonManifoldEdges\<close> makes of them are modelled
  with the conversion to 32 bits; the \<^verbatim>\<open>int\<close> and \<^verbatim>\<open>uint\<close> copies that \<^verbatim>\<open>refine\<close> and the
  loop counters make are modelled as unbounded, which is exact for meshes of fewer than
  \<open>2^31\<close> vertices and faces.
  Coordinates are \<^verbatim>\<open>double\<close>; the model keeps the point types as type parameters
  \<open>'p\<close> (3D points) and \<open>'t\<close> (2D texture coordinates), since the topological
  operations only store, copy and compare them.
\<close>

record Face =
  imageId :: nat
  a :: nat
  b :: nat
  c :: nat
  ta :: nat
  tb :: nat
  tc :: nat

record ('p, 't) Mesh =
  vertices :: "'p list"
  tCoords :: "'t list"
  faces :: "Face list"

text \<open>
  Modelled from the spec: the declarations of \<^verbatim>\<open>Face\<close> and \<^verbatim>\<open>Mesh\<close> (meshop.hpp) are not
  part of the sources. A face is built from its indices alone: the six-index
  \<^verbatim>\<open>addFace\<close> appends a face with these indices, the three-index one a face whose
  texture indices are value-initialised; neither receives a surface tag, which is
  value-initialised too.
\<close>

definition Face6 :: "nat \<Rightarrow> nat \<Rightarrow> nat \<Rightarrow> nat \<Rightarrow> nat \<Rightarrow> nat \<Rightarrow> Face" where
  "Face6 pa pb pc pta ptb ptc =
     \<lparr>imageId = 0, a = pa, b = pb, c = pc, ta = pta, tb = ptb, tc = ptc\<rparr>"

definition Face3 :: "nat \<Rightarrow> nat \<Rightarrow> nat \<Rightarrow> Face" where
  "Face3 pa pb pc = \<lparr>imageId = 0, a = pa, b = pb, c = pc, ta = 0, tb = 0, tc = 0\<rparr>"

definition addFace :: "nat \<Rightarrow> nat \<Rightarrow> nat \<Rightarrow> nat \<Rightarrow> nat \<Rightarrow> nat \<Rightarrow> ('p, 't) Mesh \<Rightarrow> ('p, 't) Mesh" where
  "addFace pa pb pc pta ptb ptc mesh = mesh\<lparr>faces := faces mesh @ [Face6 pa pb pc pta ptb ptc]\<rparr>"

definition addFace3 :: "nat \<Rightarrow> nat \<Rightarrow> nat \<Rightarrow> ('p, 't) Mesh \<Rightarrow> ('p, 't) Mesh" where
  "addFace3 pa pb pc mesh = mesh\<lparr>faces := faces mesh @ [Face3 pa pb pc]\<rparr>"

text \<open>A face is degenerate when two of its vertex indices coincide.\<close>

definition degenerate :: "Face \<Rightarrow> bool" where
  "degenerate face = (a face = b face \<or> b face = c face \<or> c face = a face)"

text \<open>
  The mesh index invariant of the data model: vertex indices of every face are below
  the size of the vertex array, and texture indices are below the size of the
  texture-coordinate array when that array is not empty.
\<close>

definition face_ok :: "nat \<Rightarrow> nat \<Rightarrow> Face \<Rightarrow> bool" where
  "face_ok nv nt face =
     (a face < nv \<and> b face < nv \<and> c face < nv \<and>
      (nt = 0 \<or> (ta face < nt \<and> tb face < nt \<and> tc face < nt)))"

definition mesh_ok :: "('p, 't) Mesh \<Rightarrow> bool" where
  "mesh_ok mesh =
     list_all (face_ok (length (vertices mesh)) (length (tCoords mesh))) (faces mesh)"

section \<open>Removal of non-manifold edges\<close>

text \<open>
  \<^verbatim>\<open>EdgeKey(v1, v2)\<close> stores the smaller index first; \<^verbatim>\<open>operator<\<close> compares keys
  lexicographically, so two keys are equivalent for \<^verbatim>\<open>std::map\<close> exactly when they are
  equal as pairs.
\<close>

type_synonym EdgeKey = "int \<times> int"

definition EdgeKey :: "int \<Rightarrow> int \<Rightarrow> EdgeKey" where
  "EdgeKey pv1 pv2 = (min pv1 pv2, max pv1 pv2)"

text \<open>
  The three keys of a face. The indices are \<^verbatim>\<open>size_t\<close> and \<^verbatim>\<open>EdgeKey\<close> takes \<^verbatim>\<open>int\<close>, so
  each index is converted at the call: the conversion keeps the low 32 bits, read as a
  two's complement number. Two indices that differ by a multiple of \<open>2^32\<close> give the
  same key.
\<close>

definition int_of_size_t :: "nat \<Rightarrow> int" where
  "int_of_size_t n =
     (let m = int n mod 4294967296 in if m < 2147483648 then m else m - 4294967296)"

definition edgeKeys :: "Face \<Rightarrow> EdgeKey list" where
  "edgeKeys face =
     [EdgeKey (int_of_size_t (a face)) (int_of_size_t (b face)),
      EdgeKey (int_of_size_t (b face)) (int_of_size_t (c face)),
      EdgeKey (int_of_size_t (c face)) (int_of_size_t (a face))]"

text \<open>
  The \<^verbatim>\<open>std::map<EdgeKey,Edge>\<close> of \<^verbatim>\<open>removeNonManifoldEdges\<close> is an association list
  with one entry per key; an entry is the set \<^verbatim>\<open>facesIndices\<close>. The second loop only
  unions the sets of the entries it visits, so the order of the entries (insertion
  order here, key order in the code) does not show in its result.
\<close>

type_synonym NmEdgeMap = "(EdgeKey \<times> nat set) list"

fun addToKey :: "EdgeKey \<Rightarrow> nat \<Rightarrow> NmEdgeMap \<Rightarrow> NmEdgeMap" where
  "addToKey key fi [] = []"
| "addToKey key fi ((k, facesIndices) # rest) =
     (if k = key then (k, insert fi facesIndices) # rest
      else (k, facesIndices) # addToKey key fi rest)"

definition countEdge :: "nat \<Rightarrow> NmEdgeMap \<Rightarrow> EdgeKey \<Rightarrow> NmEdgeMap" where
  "countEdge fi edgeMap key =
     (case map_of edgeMap key of
        None \<Rightarrow> edgeMap @ [(key, {fi})]
      | Some _ \<Rightarrow> addToKey key fi edgeMap)"

text \<open>The first loop: \<open>fi\<close> is the index of the head of the remaining faces.\<close>

fun countFaces :: "nat \<Rightarrow> Face list \<Rightarrow> NmEdgeMap \<Rightarrow> NmEdgeMap" where
  "countFaces fi [] edgeMap = edgeMap"
| "countFaces fi (face # rest) edgeMap =
     countFaces (Suc fi) rest (foldl (countEdge fi) edgeMap (edgeKeys face))"

text \<open>The second loop: faces of an edge with more than two incident faces.\<close>

fun collectOmit :: "NmEdgeMap \<Rightarrow> nat set \<Rightarrow> nat set" where
  "collectOmit [] facesToOmit = facesToOmit"
| "collectOmit ((k, facesIndices) # rest) facesToOmit =
     collectOmit rest (if card facesIndices > 2 then facesToOmit \<union> facesIndices
                       else facesToOmit)"

text \<open>The third loop, over the faces of the input mesh.\<close>

fun keepFaces :: "nat \<Rightarrow> Face list \<Rightarrow> nat set \<Rightarrow> ('p, 't) Mesh \<Rightarrow> ('p, 't) Mesh" where
  "keepFaces fi [] facesToOmit mesh = mesh"
| "keepFaces fi (face # rest) facesToOmit mesh =
     keepFaces (Suc fi) rest facesToOmit
       (if fi \<notin> facesToOmit
        then addFace (a face) (b face) (c face) (ta face) (tb face) (tc face) mesh
        else mesh)"

definition removeNonManifoldEdges :: "('p, 't) Mesh \<Rightarrow> ('p, 't) Mesh" where
  "removeNonManifoldEdges omesh =
     (let edgeMap = countFaces 0 (faces omesh) [];
          facesToOmit = collectOmit edgeMap {}
      in keepFaces 0 (faces omesh) facesToOmit (omesh\<lparr>faces := []\<rparr>))"

text \<open>
  The words of the specification, for comparison with the code: the undirected edges
  of a face, as pairs of its vertex indices; the faces incident to an undirected edge;
  and the faces marked for removal (those with an edge that has three or more incident
  faces).
\<close>

definition undirected_edges :: "Face \<Rightarrow> EdgeKey list" where
  "undirected_edges face =
     [EdgeKey (int (a face)) (int (b face)), EdgeKey (int (b face)) (int (c face)),
      EdgeKey (int (c face)) (int (a face))]"

definition incident :: "Face list \<Rightarrow> EdgeKey \<Rightarrow> nat set" where
  "incident fs key = {i. i < length fs \<and> key \<in> set (undirected_edges (fs ! i))}"

definition marked :: "Face list \<Rightarrow> nat \<Rightarrow> bool" where
  "marked fs i = (\<exists>key \<in> set (undirected_edges (fs ! i)). 3 \<le> card (incident fs key))"

definition reindexed :: "Face \<Rightarrow> Face" where
  "reindexed face = Face6 (a face) (b face) (c face) (ta face) (tb face) (tc face)"

text \<open>
  What the code does with the keys: the faces that the first loop records for a key,
  and the faces that the second loop collects. The key that the code makes of an
  undirected edge is \<open>key32\<close>.
\<close>

definition recorded :: "Face list \<Rightarrow> EdgeKey \<Rightarrow> nat set" where
  "recorded fs key = {i. i < length fs \<and> key \<in> set (edgeKeys (fs ! i))}"

definition omitted :: "Face list \<Rightarrow> nat \<Rightarrow> bool" where
  "omitted fs i = (\<exists>key \<in> set (edgeKeys (fs ! i)). 3 \<le> card (recorded fs key))"

definition key32 :: "EdgeKey \<Rightarrow> EdgeKey" where
  "key32 key = EdgeKey (int_of_size_t (nat (fst key))) (int_of_size_t (nat (snd key)))"

text \<open>
  A mesh within the range of the 32-bit numbers of \<^verbatim>\<open>removeNonManifoldEdges\<close>: every vertex
  index of a face is representable as \<^verbatim>\<open>int\<close>, so that the conversion at the call of
  \<^verbatim>\<open>EdgeKey\<close> changes none of them, and the number of faces is representable as \<^verbatim>\<open>uint\<close>,
  the type of the two loop counters \<^verbatim>\<open>fi\<close>.
\<close>

definition fits_32_bits :: "('p, 't) Mesh \<Rightarrow> bool" where
  "fits_32_bits mesh =
     (length (faces mesh) < 4294967296 \<and>
      list_all (\<lambda>face. a face < 2147483648 \<and> b face < 2147483648 \<and> c face < 2147483648)
        (faces mesh))"

text \<open>The set of faces recorded for a key of the edge map (empty for an absent key).\<close>

definition look :: "NmEdgeMap \<Rightarrow> EdgeKey \<Rightarrow> nat set" where
  "look edgeMap key = (case map_of edgeMap key of None \<Rightarrow> {} | Some s \<Rightarrow> s)"

section \<open>Clipping to a box and welding\<close>

text \<open>
  \<^verbatim>\<open>clip\<close> turns every face into a \<^verbatim>\<open>ClipTriangle\<close> built from its three positions
  only, clips the list against the six planes of the box with \<^verbatim>\<open>clipTriangles\<close>, and
  rebuilds an indexed mesh from the positions \<^verbatim>\<open>pos[0..2]\<close> of the triangles that remain.
  A \<^verbatim>\<open>ClipTriangle\<close> is modelled by the three positions, the only part \<^verbatim>\<open>clip\<close> writes
  and reads. A \<^verbatim>\<open>ClipPlane\<close> is the four numbers of its aggregate initialiser, and
  \<^verbatim>\<open>math::Extents3\<close> is the pair of corners \<open>ll\<close>, \<open>ur\<close>.
\<close>

type_synonym 'p ClipTriangle = "'p \<times> 'p \<times> 'p"

type_synonym 'x ClipPlane = "'x \<times> 'x \<times> 'x \<times> 'x"

record 'x Extents3 =
  ll :: "'x \<times> 'x \<times> 'x"
  ur :: "'x \<times> 'x \<times> 'x"

definition planes :: "('x::{zero,one,uminus}) Extents3 \<Rightarrow> 'x ClipPlane list" where
  "planes extents =
     (case (ll extents, ur extents) of ((ll0, ll1, ll2), (ur0, ur1, ur2)) \<Rightarrow>
        [(1, 0, 0, ll0), (- 1, 0, 0, - ur0),
         (0, 1, 0, ll1), (0, - 1, 0, - ur1),
         (0, 0, 1, ll2), (0, 0, - 1, - ur2)])"

text \<open>
  The first loop. Reading \<^verbatim>\<open>omesh.vertices[face.a]\<close> outside the array is undefined
  behaviour in the code; the model returns \<open>None\<close> there.
\<close>

fun faceTriangles :: "'p list \<Rightarrow> Face list \<Rightarrow> 'p ClipTriangle list option" where
  "faceTriangles vs [] = Some []"
| "faceTriangles vs (face # rest) =
     (if a face < length vs \<and> b face < length vs \<and> c face < length vs
      then map_option ((#) (vs ! a face, vs ! b face, vs ! c face)) (faceTriangles vs rest)
      else None)"

text \<open>
  The second loop. \<^verbatim>\<open>clipTriangles\<close> (triclip.hpp) is not part of the sources and is a
  parameter of the model: it takes the triangles, the plane and the vector \<^verbatim>\<open>tinfos\<close>
  (passed by reference, so it is returned as well) and yields the clipped triangles.
  \<^verbatim>\<open>clip\<close> never reads \<^verbatim>\<open>tinfos\<close>.
\<close>

type_synonym ('x, 'i) clipper =
  "('x \<times> 'x \<times> 'x) ClipTriangle list \<Rightarrow> 'x ClipPlane \<Rightarrow> 'i list \<Rightarrow>
     ('x \<times> 'x \<times> 'x) ClipTriangle list \<times> 'i list"

definition clipPasses ::
  "('x::{zero,one,uminus}, 'i) clipper \<Rightarrow> 'x Extents3 \<Rightarrow>
     ('x \<times> 'x \<times> 'x) ClipTriangle list \<Rightarrow> ('x \<times> 'x \<times> 'x) ClipTriangle list" where
  "clipPasses clipTriangles extents clipped =
     fst (foldl (\<lambda>(cl, tinfos) plane. clipTriangles cl plane tinfos) (clipped, []) (planes extents))"

text \<open>
  The welding loop. Its state is the map \<^verbatim>\<open>pMap\<close> from positions to indices, the counter
  \<^verbatim>\<open>next\<close> and the mesh under construction. The map is keyed by the position; two
  positions are the same key when they are equal. \<open>weldCorner\<close> is the body of the inner
  loop for one corner and returns \<^verbatim>\<open>indices[i]\<close> with the new state.
\<close>

type_synonym ('p, 't) weld_state = "('p \<rightharpoonup> nat) \<times> nat \<times> ('p, 't) Mesh"

definition weldCorner :: "'p \<Rightarrow> ('p, 't) weld_state \<Rightarrow> nat \<times> ('p, 't) weld_state" where
  "weldCorner p st =
     (case st of (pMap, nxt, pmesh) \<Rightarrow>
        (case pMap p of
           None \<Rightarrow>
             (nxt, (pMap(p \<mapsto> nxt), nxt + 1,
                if nxt \<ge> length (vertices pmesh)
                then pmesh\<lparr>vertices := vertices pmesh @ [p]\<rparr> else pmesh))
         | Some i \<Rightarrow>
             (i, (pMap, nxt,
                if i \<ge> length (vertices pmesh)
                then pmesh\<lparr>vertices := vertices pmesh @ [p]\<rparr> else pmesh))))"

definition weldTriangle :: "('p, 't) weld_state \<Rightarrow> 'p ClipTriangle \<Rightarrow> ('p, 't) weld_state" where
  "weldTriangle st triangle =
     (case triangle of (p0, p1, p2) \<Rightarrow>
        (case weldCorner p0 st of (i0, st0) \<Rightarrow>
        (case weldCorner p1 st0 of (i1, st1) \<Rightarrow>
        (case weldCorner p2 st1 of (i2, (pMap, nxt, pmesh)) \<Rightarrow>
           (pMap, nxt,
            if i0 \<noteq> i1 \<and> i1 \<noteq> i2 \<and> i0 \<noteq> i2 then addFace3 i0 i1 i2 pmesh else pmesh)))))"

definition weld :: "'p ClipTriangle list \<Rightarrow> ('p, 't) Mesh" where
  "weld clipped =
     snd (snd (foldl weldTriangle (Map.empty, 0, \<lparr>vertices = [], tCoords = [], faces = []\<rparr>) clipped))"

definition clippedTriangles ::
  "('x::{zero,one,uminus}, 'i) clipper \<Rightarrow> ('x \<times> 'x \<times> 'x, 't) Mesh \<Rightarrow> 'x Extents3 \<Rightarrow>
     ('x \<times> 'x \<times> 'x) ClipTriangle list option" where
  "clippedTriangles clipTriangles omesh extents =
     map_option (clipPasses clipTriangles extents) (faceTriangles (vertices omesh) (faces omesh))"

definition clip ::
  "('x::{zero,one,uminus}, 'i) clipper \<Rightarrow> ('x \<times> 'x \<times> 'x, 't) Mesh \<Rightarrow> 'x Extents3 \<Rightarrow>
     ('x \<times> 'x \<times> 'x, 't) Mesh option" where
  "clip clipTriangles omesh extents =
     (case clippedTriangles clipTriangles omesh extents of
        None \<Rightarrow> None
      | Some clipped \<Rightarrow> Some (weld clipped))"

text \<open>
  The words of the specification about welding, for comparison with the code: the
  corners of the clipped triangles in the order the loop visits them, the distinct
  positions in first-seen order, and the index of a position in a vertex array.
\<close>

definition corners :: "'p ClipTriangle list \<Rightarrow> 'p list" where
  "corners clipped = concat (map (\<lambda>(p0, p1, p2). [p0, p1, p2]) clipped)"

definition first_seen :: "'p list \<Rightarrow> 'p list" where
  "first_seen ps = rev (remdups (rev ps))"

fun index_of :: "'p list \<Rightarrow> 'p \<Rightarrow> nat" where
  "index_of [] p = 0"
| "index_of (x # xs) p = (if x = p then 0 else Suc (index_of xs p))"

definition welded_face :: "'p list \<Rightarrow> 'p ClipTriangle \<Rightarrow> Face" where
  "welded_face vs triangle =
     (case triangle of (p0, p1, p2) \<Rightarrow> Face3 (index_of vs p0) (index_of vs p1) (index_of vs p2))"

text \<open>The vertex array and the map after the positions \<open>vs\<close> were seen, in this order.\<close>

definition add_new :: "'p list \<Rightarrow> 'p \<Rightarrow> 'p list" where
  "add_new vs p = (if p \<in> set vs then vs else vs @ [p])"

definition idx_map :: "'p list \<Rightarrow> ('p \<rightharpoonup> nat)" where
  "idx_map vs p = (if p \<in> set vs then Some (index_of vs p) else None)"

definition add3 :: "'p list \<Rightarrow> 'p ClipTriangle \<Rightarrow> 'p list" where
  "add3 vs triangle = (case triangle of (p0, p1, p2) \<Rightarrow> add_new (add_new (add_new vs p0) p1) p2)"

text \<open>A clipped triangle whose three welded indices are pairwise distinct.\<close>

definition nondegenerate :: "'p list \<Rightarrow> 'p ClipTriangle \<Rightarrow> bool" where
  "nondegenerate vs triangle =
     (case triangle of (p0, p1, p2) \<Rightarrow>
        index_of vs p0 \<noteq> index_of vs p1 \<and> index_of vs p1 \<noteq> index_of vs p2 \<and>
        index_of vs p0 \<noteq> index_of vs p2)"

text \<open>
  Modelled from the spec: \<^verbatim>\<open>clipTriangles\<close> (triclip.hpp) is missing from the sources.
  This is the per-plane clip of the specification over real coordinates, used to run
  \<open>clip\<close> on concrete inputs. A triangle with no vertex outside is kept, one with three
  vertices outside is dropped, and one with one or two vertices outside is cut at the
  two crossing edges, at the parameter \<open>t\<close> of the parametric intersection, into one
  triangle (one vertex inside) or two (two vertices inside, the quad split along a
  diagonal). The retained side is the one the specification gives for the box
  (\<open>x\<^sub>i \<ge> lower\<^sub>i\<close> and \<open>x\<^sub>i \<le> upper\<^sub>i\<close>); for the planes \<open>clip\<close> builds, \<open>(1,0,0,ll\<^sub>0)\<close> and
  \<open>(-1,0,0,-ur\<^sub>0)\<close>, that is \<open>n\<cdot>x \<ge> d\<close>. Every parameter \<open>t\<close> is appended to \<^verbatim>\<open>tinfos\<close>.
\<close>

type_synonym Point3 = "real \<times> real \<times> real"
type_synonym Point2 = "real \<times> real"

definition signedDistance :: "real ClipPlane \<Rightarrow> Point3 \<Rightarrow> real" where
  "signedDistance plane p =
     (case (plane, p) of ((na, nb, nc, d), (x, y, z)) \<Rightarrow> na * x + nb * y + nc * z - d)"

definition crossing :: "real ClipPlane \<Rightarrow> Point3 \<Rightarrow> Point3 \<Rightarrow> real \<times> Point3" where
  "crossing plane p0 p1 =
     (case (plane, p0, p1) of ((na, nb, nc, d), (x0, y0, z0), (x1, y1, z1)) \<Rightarrow>
        let t = - signedDistance plane p0 / (na * (x1 - x0) + nb * (y1 - y0) + nc * (z1 - z0))
        in (t, (x0 + t * (x1 - x0), y0 + t * (y1 - y0), z0 + t * (z1 - z0))))"

text \<open>\<open>pa\<close> is the only vertex inside: one triangle.\<close>

definition loneInside ::
  "real ClipPlane \<Rightarrow> Point3 \<Rightarrow> Point3 \<Rightarrow> Point3 \<Rightarrow> Point3 ClipTriangle list \<times> real list" where
  "loneInside plane pa pb pc =
     (case (crossing plane pa pb, crossing plane pa pc) of ((t1, x1), (t2, x2)) \<Rightarrow>
        ([(pa, x1, x2)], [t1, t2]))"

text \<open>\<open>pa\<close> is the only vertex outside: the quad, split into two triangles.\<close>

definition loneOutside ::
  "real ClipPlane \<Rightarrow> Point3 \<Rightarrow> Point3 \<Rightarrow> Point3 \<Rightarrow> Point3 ClipTriangle list \<times> real list" where
  "loneOutside plane pa pb pc =
     (case (crossing plane pa pb, crossing plane pc pa) of ((t1, x1), (t2, x2)) \<Rightarrow>
        ([(x1, pb, pc), (x1, pc, x2)], [t1, t2]))"

definition clipTriangle :: "real ClipPlane \<Rightarrow> Point3 ClipTriangle \<Rightarrow> Point3 ClipTriangle list \<times> real list" where
  "clipTriangle plane triangle =
     (case triangle of (p0, p1, p2) \<Rightarrow>
        let i0 = (signedDistance plane p0 \<ge> 0);
            i1 = (signedDistance plane p1 \<ge> 0);
            i2 = (signedDistance plane p2 \<ge> 0)
        in if i0 \<and> i1 \<and> i2 then ([triangle], [])
           else if \<not> i0 \<and> \<not> i1 \<and> \<not> i2 then ([], [])
           else if i0 \<and> \<not> i1 \<and> \<not> i2 then loneInside plane p0 p1 p2
           else if i1 \<and> \<not> i2 \<and> \<not> i0 then loneInside plane p1 p2 p0
           else if i2 \<and> \<not> i0 \<and> \<not> i1 then loneInside plane p2 p0 p1
           else if \<not> i0 then loneOutside plane p0 p1 p2
           else if \<not> i1 then loneOutside plane p1 p2 p0
           else loneOutside plane p2 p0 p1)"

fun clipTriangles_spec :: "(real, real) clipper" where
  "clipTriangles_spec [] plane tinfos = ([], tinfos)"
| "clipTriangles_spec (triangle # rest) plane tinfos =
     (case clipTriangle plane triangle of (out, ts) \<Rightarrow>
        (case clipTriangles_spec rest plane (tinfos @ ts) of (out', tinfos') \<Rightarrow>
           (out @ out', tinfos')))"


section \<open>Refinement by edge splitting\<close>

text \<open>
  The floating-point operations of \<^verbatim>\<open>refine\<close> are parameters of the model: the length
  \<^verbatim>\<open>float(ublas::norm_2(p - q))\<close> of an edge, the comparison \<^verbatim>\<open><\<close> of two such lengths,
  and the midpoints \<^verbatim>\<open>(p + q) * 0.5\<close> of two positions and of two texture coordinates.
  Every theorem below holds for every interpretation of them.
\<close>

record ('p, 't, 'l) numerics =
  norm_2_diff :: "'p \<Rightarrow> 'p \<Rightarrow> 'l"
  less_float :: "'l \<Rightarrow> 'l \<Rightarrow> bool"
  middle3 :: "'p \<Rightarrow> 'p \<Rightarrow> 'p"
  middle2 :: "'t \<Rightarrow> 't \<Rightarrow> 't"

datatype EdgeType = AB | BC | CA

text \<open>
  The refiner's \<^verbatim>\<open>Edge\<close>. The constructor leaves \<^verbatim>\<open>et1\<close> and \<^verbatim>\<open>et2\<close> uninitialised, which
  is \<open>None\<close> here. The field \<^verbatim>\<open>length\<close> is \<open>elength\<close>.
\<close>

record 'l Edge =
  v1 :: int
  v2 :: int
  f1 :: int
  f2 :: int
  et1 :: "EdgeType option"
  et2 :: "EdgeType option"
  elength :: 'l

definition Edge :: "int \<Rightarrow> int \<Rightarrow> 'l \<Rightarrow> 'l Edge" where
  "Edge pv1 pv2 plength =
     \<lparr>v1 = min pv1 pv2, v2 = max pv1 pv2, f1 = - 1, f2 = - 1, et1 = None, et2 = None,
      elength = plength\<rparr>"

definition Edge_addFace :: "int \<Rightarrow> int \<Rightarrow> int \<Rightarrow> EdgeType \<Rightarrow> 'l Edge \<Rightarrow> 'l Edge" where
  "Edge_addFace pv1 pv2 fid type edge =
     (if pv1 < pv2 then edge\<lparr>f1 := fid, et1 := Some type\<rparr>
      else edge\<lparr>f2 := fid, et2 := Some type\<rparr>)"

text \<open>
  \<^verbatim>\<open>EdgeMap\<close> holds every edge through a \<^verbatim>\<open>shared_ptr\<close>, once in the map and once in the
  heap, and \<^verbatim>\<open>addFace\<close> through the map's pointer changes the edge the heap points to.
  The model keeps the edges in a store; a pointer is an index into the store. The
  field \<^verbatim>\<open>map\<close> is \<open>emap\<close>.
\<close>

record 'l EdgeMap =
  store :: "'l Edge list"
  emap :: "EdgeKey \<rightharpoonup> nat"
  heap :: "nat list"

definition compareEdgePtr :: "('p, 't, 'l) numerics \<Rightarrow> 'l Edge list \<Rightarrow> nat \<Rightarrow> nat \<Rightarrow> bool" where
  "compareEdgePtr N st x y = less_float N (elength (st ! x)) (elength (st ! y))"

text \<open>
  \<^verbatim>\<open>std::push_heap\<close> and \<^verbatim>\<open>std::pop_heap\<close> of the C++ library, as libstdc++ implements
  them. \<open>push_heap_aux\<close> moves the hole at index \<open>holeIndex\<close> up while the parent is
  smaller than \<open>val\<close> and then stores \<open>val\<close>.
\<close>

function push_heap_aux :: "('a \<Rightarrow> 'a \<Rightarrow> bool) \<Rightarrow> 'a list \<Rightarrow> nat \<Rightarrow> 'a \<Rightarrow> 'a list" where
  "push_heap_aux cmp xs holeIndex val =
     (if holeIndex > 0 \<and> cmp (xs ! ((holeIndex - 1) div 2)) val
      then push_heap_aux cmp (xs[holeIndex := xs ! ((holeIndex - 1) div 2)])
             ((holeIndex - 1) div 2) val
      else xs[holeIndex := val])"
  by pat_completeness auto
termination
  by (relation "measure (\<lambda>(cmp, xs, holeIndex, val). holeIndex)") auto

definition push_heap :: "('a \<Rightarrow> 'a \<Rightarrow> bool) \<Rightarrow> 'a list \<Rightarrow> 'a list" where
  "push_heap cmp xs =
     (if xs = [] then xs else push_heap_aux cmp xs (length xs - 1) (xs ! (length xs - 1)))"

text \<open>
  The first loop of \<^verbatim>\<open>__adjust_heap\<close>: the hole moves down to the larger child while it
  has two children (at the head of the loop \<^verbatim>\<open>secondChild\<close> equals \<^verbatim>\<open>holeIndex\<close>).
\<close>

function adjust_down :: "('a \<Rightarrow> 'a \<Rightarrow> bool) \<Rightarrow> 'a list \<Rightarrow> nat \<Rightarrow> nat \<Rightarrow> 'a list \<times> nat" where
  "adjust_down cmp xs len holeIndex =
     (if holeIndex < (len - 1) div 2
      then let secondChild = 2 * (holeIndex + 1);
               child = (if cmp (xs ! secondChild) (xs ! (secondChild - 1))
                        then secondChild - 1 else secondChild)
           in adjust_down cmp (xs[holeIndex := xs ! child]) len child
      else (xs, holeIndex))"
  by pat_completeness auto
termination
  by (relation "measure (\<lambda>(cmp, xs, len, holeIndex). len - holeIndex)") auto

definition adjust_heap :: "('a \<Rightarrow> 'a \<Rightarrow> bool) \<Rightarrow> 'a list \<Rightarrow> nat \<Rightarrow> 'a \<Rightarrow> 'a list" where
  "adjust_heap cmp xs len val =
     (case adjust_down cmp xs len 0 of (xs1, holeIndex) \<Rightarrow>
        if even len \<and> holeIndex = (len - 2) div 2
        then push_heap_aux cmp (xs1[holeIndex := xs1 ! (2 * (holeIndex + 1) - 1)])
               (2 * (holeIndex + 1) - 1) val
        else push_heap_aux cmp xs1 holeIndex val)"

definition pop_heap :: "('a \<Rightarrow> 'a \<Rightarrow> bool) \<Rightarrow> 'a list \<Rightarrow> 'a list" where
  "pop_heap cmp xs =
     (if length xs > 1
      then adjust_heap cmp (xs[length xs - 1 := xs ! 0]) (length xs - 1) (xs ! (length xs - 1))
      else xs)"

definition addFaceEdge ::
  "('p, 't, 'l) numerics \<Rightarrow> int \<Rightarrow> int \<Rightarrow> int \<Rightarrow> EdgeType \<Rightarrow> 'l \<Rightarrow> 'l EdgeMap \<Rightarrow> 'l EdgeMap" where
  "addFaceEdge N pv1 pv2 fid type plength em =
     (case emap em (EdgeKey pv1 pv2) of
        Some it \<Rightarrow> em\<lparr>store := (store em)[it := Edge_addFace pv1 pv2 fid type (store em ! it)]\<rparr>
      | None \<Rightarrow>
          let st = store em @ [Edge_addFace pv1 pv2 fid type (Edge pv1 pv2 plength)];
              back = length (store em)
          in \<lparr>store = st, emap = (emap em)(EdgeKey pv1 pv2 \<mapsto> back),
              heap = push_heap (compareEdgePtr N st) (heap em @ [back])\<rparr>)"

text \<open>
  \<^verbatim>\<open>pop_top_edge\<close> is called on a non-empty heap only (the guard of the main loop).
\<close>

definition pop_top_edge :: "('p, 't, 'l) numerics \<Rightarrow> 'l EdgeMap \<Rightarrow> 'l Edge \<times> 'l EdgeMap" where
  "pop_top_edge N em =
     (let edge = store em ! (heap em ! 0)
      in (edge, em\<lparr>heap := butlast (pop_heap (compareEdgePtr N (store em)) (heap em)),
                   emap := (emap em)(EdgeKey (v1 edge) (v2 edge) := None)\<rparr>))"

text \<open>
  \<^verbatim>\<open>addFaceEdges\<close> reads \<^verbatim>\<open>mesh.faces[fid]\<close> and the positions of its three vertices;
  outside the arrays this is undefined behaviour, \<open>None\<close> in the model.
\<close>

definition addFaceEdges ::
  "('p, 't, 'l) numerics \<Rightarrow> ('p, 't) Mesh \<Rightarrow> nat \<Rightarrow> 'l EdgeMap \<Rightarrow> 'l EdgeMap option" where
  "addFaceEdges N mesh fid em =
     (if fid < length (faces mesh) \<and>
         a (faces mesh ! fid) < length (vertices mesh) \<and>
         b (faces mesh ! fid) < length (vertices mesh) \<and>
         c (faces mesh ! fid) < length (vertices mesh)
      then
        let f = faces mesh ! fid;
            e1Length = norm_2_diff N (vertices mesh ! a f) (vertices mesh ! b f);
            em1 = addFaceEdge N (int (a f)) (int (b f)) (int fid) AB e1Length em;
            e2Length = norm_2_diff N (vertices mesh ! b f) (vertices mesh ! c f);
            em2 = addFaceEdge N (int (b f)) (int (c f)) (int fid) BC e2Length em1;
            e3Length = norm_2_diff N (vertices mesh ! c f) (vertices mesh ! a f)
        in Some (addFaceEdge N (int (c f)) (int (a f)) (int fid) CA e3Length em2)
      else None)"

text \<open>
  \<^verbatim>\<open>mesh.tCoords.size()-1\<close> is computed in \<^verbatim>\<open>size_t\<close> (64 bits): it wraps around when the
  array is empty.
\<close>

definition size_minus_1 :: "nat \<Rightarrow> nat" where
  "size_minus_1 n = (if n = 0 then 2 ^ 64 - 1 else n - 1)"

text \<open>
  The steps of one case of \<^verbatim>\<open>splitEdge\<close>. \<open>pushMiddle\<close> appends the mean of two texture
  coordinates when the mesh has texture coordinates; an index outside the array is
  undefined behaviour. \<open>reinsert\<close> is the pair of calls of \<^verbatim>\<open>addFaceEdges\<close> that ends
  every case: the face \<open>fid\<close>, then the face appended last.
\<close>

definition pushMiddle ::
  "('p, 't, 'l) numerics \<Rightarrow> nat \<Rightarrow> nat \<Rightarrow> ('p, 't) Mesh \<Rightarrow> ('p, 't) Mesh option" where
  "pushMiddle N i j mesh =
     (if length (tCoords mesh) > 0
      then if i < length (tCoords mesh) \<and> j < length (tCoords mesh)
           then Some (mesh\<lparr>tCoords := tCoords mesh @ [middle2 N (tCoords mesh ! i) (tCoords mesh ! j)]\<rparr>)
           else None
      else Some mesh)"

definition reinsert ::
  "('p, 't, 'l) numerics \<Rightarrow> nat \<Rightarrow> ('p, 't) Mesh \<Rightarrow> 'l EdgeMap \<Rightarrow> (('p, 't) Mesh \<times> 'l EdgeMap) option" where
  "reinsert N fid mesh em =
     (case addFaceEdges N mesh fid em of
        None \<Rightarrow> None
      | Some em1 \<Rightarrow>
          (case addFaceEdges N mesh (length (faces mesh) - 1) em1 of
             None \<Rightarrow> None
           | Some em2 \<Rightarrow> Some (mesh, em2)))"

text \<open>
  The lambda \<^verbatim>\<open>splitEdge\<close>, on the mesh and the edge map it captures by reference. The
  face \<open>fid\<close> must exist.
\<close>

definition splitEdge ::
  "('p, 't, 'l) numerics \<Rightarrow> nat \<Rightarrow> EdgeType \<Rightarrow> nat \<Rightarrow> ('p, 't) Mesh \<times> 'l EdgeMap \<Rightarrow>
     (('p, 't) Mesh \<times> 'l EdgeMap) option" where
  "splitEdge N fid type vid st =
     (case st of (mesh, em) \<Rightarrow>
        if fid < length (faces mesh) then
          let face = faces mesh ! fid in
          (case type of
             AB \<Rightarrow>
               (case pushMiddle N (ta face) (tb face) mesh of
                  None \<Rightarrow> None
                | Some m1 \<Rightarrow>
                    let m2 = addFace (b (faces m1 ! fid)) (c (faces m1 ! fid)) vid
                               (tb (faces m1 ! fid)) (tc (faces m1 ! fid))
                               (size_minus_1 (length (tCoords m1))) m1;
                        m3 = m2\<lparr>faces := (faces m2)[fid := (faces m2 ! fid)
                                 \<lparr>b := vid, tb := size_minus_1 (length (tCoords m2))\<rparr>]\<rparr>
                    in reinsert N fid m3 em)
           | BC \<Rightarrow>
               (case pushMiddle N (tb face) (tc face) mesh of
                  None \<Rightarrow> None
                | Some m1 \<Rightarrow>
                    let m2 = addFace (c (faces m1 ! fid)) (a (faces m1 ! fid)) vid
                               (tc (faces m1 ! fid)) (ta (faces m1 ! fid))
                               (size_minus_1 (length (tCoords m1))) m1;
                        m3 = m2\<lparr>faces := (faces m2)[fid := (faces m2 ! fid)
                                 \<lparr>c := vid, tc := size_minus_1 (length (tCoords m2))\<rparr>]\<rparr>
                    in reinsert N fid m3 em)
           | CA \<Rightarrow>
               (case pushMiddle N (tc face) (ta face) mesh of
                  None \<Rightarrow> None
                | Some m1 \<Rightarrow>
                    let m2 = addFace (a (faces m1 ! fid)) (b (faces m1 ! fid)) vid
                               (ta (faces m1 ! fid)) (tb (faces m1 ! fid))
                               (size_minus_1 (length (tCoords m1))) m1;
                        m3 = m2\<lparr>faces := (faces m2)[fid := (faces m2 ! fid)
                                 \<lparr>a := vid, ta := size_minus_1 (length (tCoords m2))\<rparr>]\<rparr>
                    in reinsert N fid m3 em))
        else None)"

text \<open>
  The body of the main loop: pop the top edge, append the midpoint of its endpoints,
  and split the faces of its two slots. Reading an endpoint outside the vertex array,
  or the edge type of a slot that was never set, is undefined behaviour.
\<close>

definition splitSlot ::
  "('p, 't, 'l) numerics \<Rightarrow> int \<Rightarrow> EdgeType option \<Rightarrow> ('p, 't) Mesh \<times> 'l EdgeMap \<Rightarrow>
     (('p, 't) Mesh \<times> 'l EdgeMap) option" where
  "splitSlot N f et st =
     (if f \<ge> 0
      then (case et of
              None \<Rightarrow> None
            | Some type \<Rightarrow> splitEdge N (nat f) type (length (vertices (fst st)) - 1) st)
      else Some st)"

definition refine_step ::
  "('p, 't, 'l) numerics \<Rightarrow> ('p, 't) Mesh \<times> 'l EdgeMap \<Rightarrow> (('p, 't) Mesh \<times> 'l EdgeMap) option" where
  "refine_step N st =
     (case st of (mesh, em) \<Rightarrow>
        (case pop_top_edge N em of (edge, em1) \<Rightarrow>
           if 0 \<le> v1 edge \<and> nat (v1 edge) < length (vertices mesh) \<and>
              0 \<le> v2 edge \<and> nat (v2 edge) < length (vertices mesh)
           then
             let middle = middle3 N (vertices mesh ! nat (v1 edge)) (vertices mesh ! nat (v2 edge));
                 mesh1 = mesh\<lparr>vertices := vertices mesh @ [middle]\<rparr>
             in (case splitSlot N (f1 edge) (et1 edge) (mesh1, em1) of
                   None \<Rightarrow> None
                 | Some st1 \<Rightarrow> splitSlot N (f2 edge) (et2 edge) st1)
           else None))"

text \<open>The loop that registers the edges of every face, for \<open>i\<close> from 0.\<close>

fun addAllFaceEdges ::
  "('p, 't, 'l) numerics \<Rightarrow> ('p, 't) Mesh \<Rightarrow> nat list \<Rightarrow> 'l EdgeMap \<Rightarrow> 'l EdgeMap option" where
  "addAllFaceEdges N mesh [] em = Some em"
| "addAllFaceEdges N mesh (i # rest) em =
     (case addFaceEdges N mesh i em of
        None \<Rightarrow> None
      | Some em1 \<Rightarrow> addAllFaceEdges N mesh rest em1)"

subsection \<open>The heap operations permute the heap\<close>

text \<open>
  What the loop needs of the heap operations, for every comparison: they keep the
  length and the elements of the vector, and \<open>pop_heap\<close> moves the first element to
  the back.
\<close>

declare push_heap_aux.simps [simp del] adjust_down.simps [simp del]

lemma length_push_heap_aux [simp]: "length (push_heap_aux cmp xs h v) = length xs"
  by (induction cmp xs h v rule: push_heap_aux.induct) (subst push_heap_aux.simps, simp)

lemma mset_swap_hole:
  assumes "h < length xs" "p < length xs" "p \<noteq> h"
  shows "mset (xs[h := xs ! p, p := v]) = mset (xs[h := v])"
proof -
  let ?ys = "xs[h := v]"
  have "xs[h := xs ! p, p := v] = ?ys[h := ?ys ! p, p := ?ys ! h]"
    using assms by (simp add: list_update_swap)
  also have "mset \<dots> = mset ?ys"
    using assms by (intro mset_swap) simp_all
  finally show ?thesis .
qed

lemma mset_push_heap_aux:
  "h < length xs \<Longrightarrow> mset (push_heap_aux cmp xs h v) = mset (xs[h := v])"
proof (induction cmp xs h v rule: push_heap_aux.induct)
  case (1 cmp xs h v)
  show ?case
  proof (cases "h > 0 \<and> cmp (xs ! ((h - 1) div 2)) v")
    case True
    let ?p = "(h - 1) div 2"
    from True 1 have p: "?p < length xs" "?p \<noteq> h" by auto
    have "mset (push_heap_aux cmp xs h v) = mset (push_heap_aux cmp (xs[h := xs ! ?p]) ?p v)"
      using True by (subst push_heap_aux.simps) simp
    also have "\<dots> = mset (xs[h := xs ! ?p, ?p := v])"
      using True p by (intro "1.IH") simp_all
    also have "\<dots> = mset (xs[h := v])"
      using 1(2) p by (rule mset_swap_hole)
    finally show ?thesis .
  next
    case False
    then show ?thesis by (subst push_heap_aux.simps) auto
  qed
qed

lemma nth_push_heap_aux:
  "h < i \<Longrightarrow> push_heap_aux cmp xs h v ! i = xs ! i"
proof (induction cmp xs h v rule: push_heap_aux.induct)
  case (1 cmp xs h v)
  show ?case
  proof (cases "h > 0 \<and> cmp (xs ! ((h - 1) div 2)) v")
    case True
    let ?p = "(h - 1) div 2"
    from True 1(2) have "?p < i" by auto
    with True 1 show ?thesis by (subst push_heap_aux.simps) simp
  next
    case False
    with 1(2) show ?thesis by (subst push_heap_aux.simps) auto
  qed
qed

lemma length_push_heap [simp]: "length (push_heap cmp xs) = length xs"
  by (simp add: push_heap_def)

lemma mset_push_heap [simp]: "mset (push_heap cmp xs) = mset xs"
  by (cases "xs = []") (simp_all add: push_heap_def mset_push_heap_aux)

lemma set_push_heap [simp]: "set (push_heap cmp xs) = set xs"
  by (metis mset_push_heap set_mset_mset)

lemma adjust_down_props:
  assumes "adjust_down cmp xs len h = (ys, k)" "h < len" "len \<le> length xs"
  shows "length ys = length xs \<and> k < len \<and> (\<forall>i\<ge>len. ys ! i = xs ! i) \<and>
         mset (ys[k := v]) = mset (xs[h := v])"
  using assms
proof (induction cmp xs len h arbitrary: ys k rule: adjust_down.induct)
  case (1 cmp xs len h)
  show ?case
  proof (cases "h < (len - 1) div 2")
    case True
    define sc where "sc = 2 * (h + 1)"
    define ch where "ch = (if cmp (xs ! sc) (xs ! (sc - 1)) then sc - 1 else sc)"
    from True have sc: "sc < len" "h < sc - 1" by (auto simp: sc_def)
    then have ch: "ch < len" "h < ch" by (auto simp: ch_def)
    have eq: "adjust_down cmp (xs[h := xs ! ch]) len ch = (ys, k)"
      using "1.prems"(1) True by (subst (asm) adjust_down.simps) (auto simp: Let_def sc_def ch_def)
    have IH: "length ys = length (xs[h := xs ! ch]) \<and> k < len \<and>
        (\<forall>i\<ge>len. ys ! i = xs[h := xs ! ch] ! i) \<and>
        mset (ys[k := v]) = mset (xs[h := xs ! ch, ch := v])"
      using "1.IH" [OF True refl refl, folded sc_def, folded ch_def, OF eq ch(1)] "1.prems"(3)
      by simp
    have "mset (xs[h := xs ! ch, ch := v]) = mset (xs[h := v])"
      using ch "1.prems" by (intro mset_swap_hole) auto
    moreover have "xs[h := xs ! ch] ! i = xs ! i" if "i \<ge> len" for i
      using that "1.prems"(2) by simp
    ultimately show ?thesis using IH by simp
  next
    case False
    with "1.prems" show ?thesis by (subst (asm) adjust_down.simps) auto
  qed
qed

lemma adjust_heap_props:
  assumes "0 < len" "len \<le> length xs"
  shows "length (adjust_heap cmp xs len v) = length xs \<and>
         (\<forall>i\<ge>len. adjust_heap cmp xs len v ! i = xs ! i) \<and>
         mset (adjust_heap cmp xs len v) = mset (xs[0 := v])"
proof -
  obtain ys k where ad: "adjust_down cmp xs len 0 = (ys, k)" by (cases "adjust_down cmp xs len 0")
  from adjust_down_props [OF ad assms]
  have P: "length ys = length xs" "k < len" "\<And>i. i \<ge> len \<Longrightarrow> ys ! i = xs ! i"
    "\<And>v. mset (ys[k := v]) = mset (xs[0 := v])" by auto
  show ?thesis
  proof (cases "even len \<and> k = (len - 2) div 2")
    case True
    let ?c = "2 * (k + 1) - 1"
    from True assms(1) have c: "?c < len" "k < ?c" "?c \<noteq> k" by (auto elim!: evenE)
    have res: "adjust_heap cmp xs len v = push_heap_aux cmp (ys[k := ys ! ?c]) ?c v"
      using True by (simp add: adjust_heap_def ad)
    have "mset (adjust_heap cmp xs len v) = mset (ys[k := ys ! ?c, ?c := v])"
      unfolding res using c P(1) assms(2) by (intro mset_push_heap_aux) simp
    also have "\<dots> = mset (ys[k := v])"
      using c P(1,2) assms(2) by (intro mset_swap_hole) auto
    finally have "mset (adjust_heap cmp xs len v) = mset (xs[0 := v])" by (simp add: P(4))
    moreover have "adjust_heap cmp xs len v ! i = xs ! i" if "i \<ge> len" for i
      unfolding res using that c P(2,3) by (simp add: nth_push_heap_aux)
    ultimately show ?thesis by (simp add: res P(1))
  next
    case False
    have res: "adjust_heap cmp xs len v = push_heap_aux cmp ys k v"
      using False by (auto simp add: adjust_heap_def ad)
    have "mset (adjust_heap cmp xs len v) = mset (xs[0 := v])"
      unfolding res using P(1,2,4) assms(2) by (simp add: mset_push_heap_aux)
    moreover have "adjust_heap cmp xs len v ! i = xs ! i" if "i \<ge> len" for i
      unfolding res using that P(2,3) by (simp add: nth_push_heap_aux)
    ultimately show ?thesis by (simp add: res P(1))
  qed
qed

lemma length_pop_heap [simp]: "length (pop_heap cmp xs) = length xs"
  using adjust_heap_props [of "length xs - 1" "xs[length xs - 1 := xs ! 0]" cmp]
  by (auto simp: pop_heap_def)

lemma mset_pop_heap [simp]: "mset (pop_heap cmp xs) = mset xs"
proof (cases "length xs > 1")
  case True
  let ?n = "length xs - 1"
  from True adjust_heap_props [of ?n "xs[?n := xs ! 0]" cmp "xs ! ?n"]
  have "mset (pop_heap cmp xs) = mset (xs[?n := xs ! 0, 0 := xs ! ?n])"
    by (simp add: pop_heap_def)
  also have "\<dots> = mset xs"
    using True by (intro mset_swap) auto
  finally show ?thesis .
next
  case False
  then show ?thesis by (simp add: pop_heap_def)
qed

lemma last_pop_heap: "xs \<noteq> [] \<Longrightarrow> last (pop_heap cmp xs) = xs ! 0"
proof (cases "length xs > 1")
  case True
  let ?n = "length xs - 1"
  from True adjust_heap_props [of ?n "xs[?n := xs ! 0]" cmp "xs ! ?n"]
  have "pop_heap cmp xs ! ?n = xs[?n := xs ! 0] ! ?n"
    by (simp add: pop_heap_def)
  moreover have "pop_heap cmp xs \<noteq> []"
    using True by (metis length_pop_heap list.size(3) not_less_zero)
  then have "last (pop_heap cmp xs) = pop_heap cmp xs ! ?n"
    by (simp add: last_conv_nth)
  ultimately show ?thesis using True by simp
next
  case False
  moreover assume "xs \<noteq> []"
  ultimately have "length xs = 1" by (cases xs) auto
  then show ?thesis by (cases xs) (auto simp: pop_heap_def)
qed

lemma mset_butlast_pop_heap:
  "xs \<noteq> [] \<Longrightarrow> mset (butlast (pop_heap cmp xs)) = mset xs - {#xs ! 0#}"
proof -
  assume ne: "xs \<noteq> []"
  then have "pop_heap cmp xs \<noteq> []" by (metis length_pop_heap length_0_conv)
  then have "mset (pop_heap cmp xs) = add_mset (last (pop_heap cmp xs)) (mset (butlast (pop_heap cmp xs)))"
    by (metis append_butlast_last_id mset.simps(2) mset_append union_mset_add_mset_right add.right_neutral mset.simps(1))
  with ne show ?thesis by (simp add: last_pop_heap)
qed

subsection \<open>The main loop\<close>

text \<open>
  One run of the loop body appends one vertex; a split appends one face; a body that
  splits no face shortens the heap. So the loop terminates.
\<close>

lemma length_heap_pop:
  "length (heap (snd (pop_top_edge N em))) = length (heap em) - 1"
  by (simp add: pop_top_edge_def Let_def)

lemma addFaceEdges_mesh: "addFaceEdges N mesh fid em = Some em' \<Longrightarrow> fid < length (faces mesh)"
  by (simp add: addFaceEdges_def split: if_splits)

lemma pushMiddle_frame:
  "pushMiddle N i j mesh = Some m1 \<Longrightarrow> faces m1 = faces mesh \<and> vertices m1 = vertices mesh"
  by (auto simp: pushMiddle_def split: if_splits)

lemma reinsert_mesh: "reinsert N fid mesh em = Some (mesh', em') \<Longrightarrow> mesh' = mesh"
  by (auto simp: reinsert_def split: option.splits)

lemma splitEdge_frame:
  assumes "splitEdge N fid type vid (mesh, em) = Some (mesh', em')"
  shows "length (faces mesh') = Suc (length (faces mesh)) \<and> vertices mesh' = vertices mesh"
proof (cases type)
  case AB
  with assms show ?thesis
    by (auto simp: splitEdge_def Let_def addFace_def split: if_splits option.splits
        dest!: reinsert_mesh pushMiddle_frame)
next
  case BC
  with assms show ?thesis
    by (auto simp: splitEdge_def Let_def addFace_def split: if_splits option.splits
        dest!: reinsert_mesh pushMiddle_frame)
next
  case CA
  with assms show ?thesis
    by (auto simp: splitEdge_def Let_def addFace_def split: if_splits option.splits
        dest!: reinsert_mesh pushMiddle_frame)
qed

lemma splitSlot_frame:
  assumes "splitSlot N f et st = Some st'"
  shows "vertices (fst st') = vertices (fst st) \<and>
         (if f \<ge> 0 then length (faces (fst st')) = Suc (length (faces (fst st))) else st' = st)"
proof (cases "f \<ge> 0")
  case True
  with assms obtain type where "splitEdge N (nat f) type (length (vertices (fst st)) - 1) (fst st, snd st) = Some (fst st', snd st')"
    by (auto simp: splitSlot_def split: option.splits)
  from splitEdge_frame [OF this] True show ?thesis by simp
next
  case False
  with assms show ?thesis by (simp add: splitSlot_def)
qed

lemma refine_step_frame:
  assumes "refine_step N st = Some st'"
  shows "length (vertices (fst st')) = Suc (length (vertices (fst st))) \<and>
         length (faces (fst st)) \<le> length (faces (fst st')) \<and>
         (length (faces (fst st')) = length (faces (fst st)) \<longrightarrow>
            length (heap (snd st')) = length (heap (snd st)) - 1)"
proof -
  obtain mesh em where st: "st = (mesh, em)" by (cases st)
  obtain edge em1 where pop: "pop_top_edge N em = (edge, em1)" by (cases "pop_top_edge N em")
  define mesh1 where "mesh1 = mesh\<lparr>vertices := vertices mesh @
    [middle3 N (vertices mesh ! nat (v1 edge)) (vertices mesh ! nat (v2 edge))]\<rparr>"
  from assms obtain st1 where
    s1: "splitSlot N (f1 edge) (et1 edge) (mesh1, em1) = Some st1" and
    s2: "splitSlot N (f2 edge) (et2 edge) st1 = Some st'"
    by (auto simp: refine_step_def st pop Let_def mesh1_def split: if_splits option.splits)
  have h: "length (heap em1) = length (heap em) - 1"
    using length_heap_pop [of N em] by (simp add: pop)
  from splitSlot_frame [OF s1] splitSlot_frame [OF s2] h show ?thesis
    by (auto simp: st mesh1_def split: if_splits)
qed

text \<open>
  The main loop, on the mesh and the edge map. It stops when the face count reaches
  \<open>maxFacesCount\<close> or the heap is empty.
\<close>

function refine_loop ::
  "('p, 't, 'l) numerics \<Rightarrow> nat \<Rightarrow> ('p, 't) Mesh \<times> 'l EdgeMap \<Rightarrow> (('p, 't) Mesh \<times> 'l EdgeMap) option" where
  "refine_loop N maxFacesCount st =
     (if length (faces (fst st)) < maxFacesCount \<and> length (heap (snd st)) > 0
      then (case refine_step N st of
              None \<Rightarrow> None
            | Some st' \<Rightarrow> refine_loop N maxFacesCount st')
      else Some st)"
  by pat_completeness auto
termination
proof (relation "measures [\<lambda>(N, maxFacesCount, st). maxFacesCount - length (faces (fst st)),
                           \<lambda>(N, maxFacesCount, st). length (heap (snd st))]")
  show "wf (measures [\<lambda>(N, maxFacesCount, st). maxFacesCount - length (faces (fst st)),
                     \<lambda>(N :: ('a, 'b, 'c) numerics, maxFacesCount, st). length (heap (snd st))])"
    by simp
next
  fix N :: "('a, 'b, 'c) numerics" and maxFacesCount st st'
  assume "length (faces (fst st)) < maxFacesCount \<and> 0 < length (heap (snd st))"
    and "refine_step N st = Some st'"
  with refine_step_frame [of N st st']
  show "((N, maxFacesCount, st'), (N, maxFacesCount, st))
          \<in> measures [\<lambda>(N, maxFacesCount, st). maxFacesCount - length (faces (fst st)),
                      \<lambda>(N, maxFacesCount, st). length (heap (snd st))]"
    by auto
qed

definition refine_run ::
  "('p, 't, 'l) numerics \<Rightarrow> ('p, 't) Mesh \<Rightarrow> nat \<Rightarrow> (('p, 't) Mesh \<times> 'l EdgeMap) option" where
  "refine_run N omesh maxFacesCount =
     (case addAllFaceEdges N omesh [0..<length (faces omesh)]
             \<lparr>store = [], emap = Map.empty, heap = []\<rparr> of
        None \<Rightarrow> None
      | Some edgeMap \<Rightarrow> refine_loop N maxFacesCount (omesh, edgeMap))"

definition refine :: "('p, 't, 'l) numerics \<Rightarrow> ('p, 't) Mesh \<Rightarrow> nat \<Rightarrow> ('p, 't) Mesh option" where
  "refine N omesh maxFacesCount = map_option fst (refine_run N omesh maxFacesCount)"

text \<open>
  The number of times the loop body runs (the split steps), for comparison with the
  vertex count; the source keeps no such counter.
\<close>

function splitSteps ::
  "('p, 't, 'l) numerics \<Rightarrow> nat \<Rightarrow> ('p, 't) Mesh \<times> 'l EdgeMap \<Rightarrow> nat" where
  "splitSteps N maxFacesCount st =
     (if length (faces (fst st)) < maxFacesCount \<and> length (heap (snd st)) > 0
      then (case refine_step N st of
              None \<Rightarrow> 0
            | Some st' \<Rightarrow> Suc (splitSteps N maxFacesCount st'))
      else 0)"
  by pat_completeness auto
termination
proof (relation "measures [\<lambda>(N, maxFacesCount, st). maxFacesCount - length (faces (fst st)),
                           \<lambda>(N, maxFacesCount, st). length (heap (snd st))]")
  show "wf (measures [\<lambda>(N, maxFacesCount, st). maxFacesCount - length (faces (fst st)),
                     \<lambda>(N :: ('a, 'b, 'c) numerics, maxFacesCount, st). length (heap (snd st))])"
    by simp
next
  fix N :: "('a, 'b, 'c) numerics" and maxFacesCount st st'
  assume "length (faces (fst st)) < maxFacesCount \<and> 0 < length (heap (snd st))"
    and "refine_step N st = Some st'"
  with refine_step_frame [of N st st']
  show "((N, maxFacesCount, st'), (N, maxFacesCount, st))
          \<in> measures [\<lambda>(N, maxFacesCount, st). maxFacesCount - length (faces (fst st)),
                      \<lambda>(N, maxFacesCount, st). length (heap (snd st))]"
    by auto
qed

declare refine_loop.simps [simp del] splitSteps.simps [simp del]

text \<open>The split steps of a whole run of \<open>refine\<close>.\<close>

definition refine_steps :: "('p, 't, 'l) numerics \<Rightarrow> ('p, 't) Mesh \<Rightarrow> nat \<Rightarrow> nat" where
  "refine_steps N omesh maxFacesCount =
     (case addAllFaceEdges N omesh [0..<length (faces omesh)]
             \<lparr>store = [], emap = Map.empty, heap = []\<rparr> of
        None \<Rightarrow> 0
      | Some edgeMap \<Rightarrow> splitSteps N maxFacesCount (omesh, edgeMap))"


text \<open>
  An interpretation of the floating-point operations over the reals, for the examples:
  the Euclidean length of the difference, the order of the reals, and the means.
\<close>

definition real_numerics :: "(Point3, Point2, real) numerics" where
  "real_numerics =
     \<lparr>norm_2_diff = (\<lambda>(x0, y0, z0) (x1, y1, z1).
                       sqrt ((x0 - x1) * (x0 - x1) + (y0 - y1) * (y0 - y1) + (z0 - z1) * (z0 - z1))),
      less_float = (<),
      middle3 = (\<lambda>(x0, y0, z0) (x1, y1, z1). ((x0 + x1) * 0.5, (y0 + y1) * 0.5, (z0 + z1) * 0.5)),
      middle2 = (\<lambda>(x0, y0) (x1, y1). ((x0 + x1) * 0.5, (y0 + y1) * 0.5))\<rparr>"

subsection \<open>The invariant of the main loop\<close>

text \<open>
  What the loop keeps true of the edge map, given the sizes \<open>nv\<close> and \<open>nf\<close> of the
  vertex and face arrays: every edge of the heap has its endpoints in the vertex array
  and at least one slot set, a slot that is set names a face of the mesh and an edge
  type, and every entry of the map points to an edge of the heap that has the key of
  the entry.
\<close>

definition slot_ok :: "nat \<Rightarrow> int \<Rightarrow> EdgeType option \<Rightarrow> bool" where
  "slot_ok nf f et = (f < int nf \<and> (f < 0 \<or> et \<noteq> None))"

definition edge_ok :: "nat \<Rightarrow> nat \<Rightarrow> 'l Edge \<Rightarrow> bool" where
  "edge_ok nv nf e =
     (0 \<le> v1 e \<and> v1 e < int nv \<and> 0 \<le> v2 e \<and> v2 e < int nv \<and>
      slot_ok nf (f1 e) (et1 e) \<and> slot_ok nf (f2 e) (et2 e) \<and> (0 \<le> f1 e \<or> 0 \<le> f2 e))"

definition em_ok :: "nat \<Rightarrow> nat \<Rightarrow> 'l EdgeMap \<Rightarrow> bool" where
  "em_ok nv nf em =
     ((\<forall>r \<in> set (heap em). r < length (store em) \<and> edge_ok nv nf (store em ! r)) \<and>
      (\<forall>k r. emap em k = Some r \<longrightarrow>
         r \<in> set (heap em) \<and> EdgeKey (v1 (store em ! r)) (v2 (store em ! r)) = k))"

definition state_ok :: "('p, 't) Mesh \<times> 'l EdgeMap \<Rightarrow> bool" where
  "state_ok st =
     (mesh_ok (fst st) \<and>
      em_ok (length (vertices (fst st))) (length (faces (fst st))) (snd st) \<and>
      (faces (fst st) = [] \<or> heap (snd st) \<noteq> []))"

subsection \<open>The links between edges and faces\<close>

text \<open>
  The edge a face presents in each of its three positions, with the endpoints in the
  order \<^verbatim>\<open>addFaceEdges\<close> passes them; and the slot of the record of an edge that
  \<^verbatim>\<open>Edge::addFace\<close> selects for the endpoint order \<open>(p, q)\<close>: \<^verbatim>\<open>f1\<close> and \<^verbatim>\<open>et1\<close> when \<open>p < q\<close>,
  \<^verbatim>\<open>f2\<close> and \<^verbatim>\<open>et2\<close> otherwise. The slot is \<open>None\<close> when the map has no record for the
  key of the edge.
\<close>

fun edge_at :: "Face \<Rightarrow> EdgeType \<Rightarrow> int \<times> int" where
  "edge_at face AB = (int (a face), int (b face))"
| "edge_at face BC = (int (b face), int (c face))"
| "edge_at face CA = (int (c face), int (a face))"

definition slot_of :: "'l EdgeMap \<Rightarrow> int \<times> int \<Rightarrow> (int \<times> EdgeType option) option" where
  "slot_of em pq =
     (case emap em (EdgeKey (fst pq) (snd pq)) of
        None \<Rightarrow> None
      | Some r \<Rightarrow>
          Some (if fst pq < snd pq then (f1 (store em ! r), et1 (store em ! r))
                else (f2 (store em ! r), et2 (store em ! r))))"

text \<open>
  A list of calls of \<^verbatim>\<open>addFaceEdge\<close>, given by their arguments, and the three calls that
  \<^verbatim>\<open>addFaceEdges\<close> makes for a face.
\<close>

type_synonym 'l registration = "(int \<times> int) \<times> int \<times> EdgeType \<times> 'l"

definition register ::
  "('p, 't, 'l) numerics \<Rightarrow> 'l registration list \<Rightarrow> 'l EdgeMap \<Rightarrow> 'l EdgeMap" where
  "register N regs em =
     foldl (\<lambda>em (pq, fid, type, len). addFaceEdge N (fst pq) (snd pq) fid type len em) em regs"

definition face_regs ::
  "('p, 't, 'l) numerics \<Rightarrow> ('p, 't) Mesh \<Rightarrow> nat \<Rightarrow> 'l registration list" where
  "face_regs N mesh fid =
     (let f = faces mesh ! fid in
        [(edge_at f AB, int fid, AB, norm_2_diff N (vertices mesh ! a f) (vertices mesh ! b f)),
         (edge_at f BC, int fid, BC, norm_2_diff N (vertices mesh ! b f) (vertices mesh ! c f)),
         (edge_at f CA, int fid, CA, norm_2_diff N (vertices mesh ! c f) (vertices mesh ! a f))])"

text \<open>A call of \<^verbatim>\<open>addFaceEdge\<close> with endpoints in the vertex array and a face of the mesh.\<close>

definition reg_ok :: "nat \<Rightarrow> nat \<Rightarrow> 'l registration \<Rightarrow> bool" where
  "reg_ok nv nf reg =
     (case reg of (pq, fid, type, len) \<Rightarrow>
        0 \<le> fst pq \<and> fst pq < int nv \<and> 0 \<le> snd pq \<and> snd pq < int nv \<and>
        0 \<le> fid \<and> fid < int nf)"

text \<open>The three vertex indices of a face.\<close>

definition abc :: "Face \<Rightarrow> nat \<times> nat \<times> nat" where
  "abc face = (a face, b face, c face)"

section \<open>Reading a PLY file\<close>













subsection \<open>The content of a file\<close>









section \<open>Example meshes\<close>

text \<open>
  Concrete inputs, with real coordinates: a single tagged triangle, three triangles
  that share the edge between vertices 0 and 1, and a textured triangle with the box
  \<open>[-1,1]\<^sup>3\<close> that cuts it.
\<close>

definition textured_triangle :: "(Point3, Point2) Mesh" where
  "textured_triangle =
     \<lparr>vertices = [(0, 0, 0), (2, 0, 0), (0, 2, 0)], tCoords = [(0, 0), (1, 0), (0, 1)],
      faces = [Face6 0 1 2 0 1 2]\<rparr>"

definition unit_box :: "real Extents3" where
  "unit_box = \<lparr>ll = (- 1, - 1, - 1), ur = (1, 1, 1)\<rparr>"

definition tagged_triangle :: "(Point3, Point2) Mesh" where
  "tagged_triangle =
     \<lparr>vertices = [(0, 0, 0), (1, 0, 0), (0, 1, 0)], tCoords = [],
      faces = [\<lparr>imageId = 1, a = 0, b = 1, c = 2, ta = 0, tb = 0, tc = 0\<rparr>]\<rparr>"

definition fan :: "(Point3, Point2) Mesh" where
  "fan =
     \<lparr>vertices = [(0, 0, 0), (1, 0, 0), (0, 1, 0), (0, 0, 1), (0, -1, 0)], tCoords = [(0, 0)],
      faces = [Face3 0 1 2, Face3 0 1 3, Face3 0 1 4]\<rparr>"

text \<open>The fan, and a fourth triangle that shares no edge with it.\<close>

definition fan_flap :: "(Point3, Point2) Mesh" where
  "fan_flap = fan\<lparr>faces := faces fan @ [Face3 2 3 4]\<rparr>"

text \<open>Three faces, one of them with a vertex index that does not fit \<^verbatim>\<open>int\<close>.\<close>

definition wide_faces :: "Face list" where
  "wide_faces = [Face3 0 1 2, Face3 0 1 3, Face3 0 4294967297 4]"

text \<open>Four vertices and no face.\<close>

definition no_faces :: "(Point3, Point2) Mesh" where
  "no_faces =
     \<lparr>vertices = [(0, 0, 0), (1, 0, 0), (0, 1, 0), (0, 0, 1)], tCoords = [], faces = []\<rparr>"

text \<open>
  What the six passes leave of \<open>textured_triangle\<close> in \<open>unit_box\<close>, and the mesh welded
  from it. The second triangle has two equal corners.
\<close>

definition cut_triangles :: "Point3 ClipTriangle list" where
  "cut_triangles =
     [((0, 1, 0), (0, 0, 0), (1, 1, 0)), ((0, 1, 0), (1, 1, 0), (1, 1, 0)),
      ((1, 1, 0), (0, 0, 0), (1, 0, 0))]"

definition cut_mesh :: "(Point3, Point2) Mesh" where
  "cut_mesh =
     \<lparr>vertices = [(0, 1, 0), (0, 0, 0), (1, 1, 0), (1, 0, 0)], tCoords = [],
      faces = [Face3 0 1 2, Face3 2 1 3]\<rparr>"

text \<open>
  A mesh whose faces refer to texture coordinates that the mesh holds.
\<close>

definition textured :: "('p, 't) Mesh \<Rightarrow> bool" where
  "textured mesh =
     list_all (\<lambda>face. ta face < length (tCoords mesh) \<and> tb face < length (tCoords mesh) \<and>
                       tc face < length (tCoords mesh)) (faces mesh)"

text \<open>
  The textured triangle after one split of its longest edge, between vertices 1 and 2.
\<close>

definition split_triangle :: "(Point3, Point2) Mesh" where
  "split_triangle =
     \<lparr>vertices = [(0, 0, 0), (2, 0, 0), (0, 2, 0), (1, 1, 0)],
      tCoords = [(0, 0), (1, 0), (0, 1), (1 / 2, 1 / 2)],
      faces = [Face6 0 1 3 0 1 3, Face6 2 0 3 2 0 3]\<rparr>"

text \<open>
  The edge map of \<open>textured_triangle\<close> after the first loop of \<open>refine\<close>, and the state
  of the main loop after its first pop and the midpoint of the popped edge: the longest
  edge, between vertices 1 and 2, has left the map and the heap.
\<close>

definition initial_edges :: "real EdgeMap" where
  "initial_edges =
     \<lparr>store =
        [\<lparr>v1 = 0, v2 = 1, f1 = 0, f2 = - 1, et1 = Some AB, et2 = None, elength = 2\<rparr>,
         \<lparr>v1 = 1, v2 = 2, f1 = 0, f2 = - 1, et1 = Some BC, et2 = None, elength = sqrt 8\<rparr>,
         \<lparr>v1 = 0, v2 = 2, f1 = - 1, f2 = 0, et1 = None, et2 = Some CA, elength = 2\<rparr>],
      emap = [(0, 1) \<mapsto> 0, (1, 2) \<mapsto> Suc 0, (0, 2) \<mapsto> Suc (Suc 0)],
      heap = [1, 0, 2]\<rparr>"

definition popped_edges :: "real EdgeMap" where
  "popped_edges =
     initial_edges\<lparr>emap := [(0, 1) \<mapsto> 0, (0, 2) \<mapsto> Suc (Suc 0)], heap := [0, 2]\<rparr>"

definition popped_mesh :: "(Point3, Point2) Mesh" where
  "popped_mesh = textured_triangle\<lparr>vertices := vertices textured_triangle @ [(1, 1, 0)]\<rparr>"

text \<open>
  Two triangles that share the edge between vertices 1 and 2, which the first presents
  as \<open>(1, 2)\<close> and the second as \<open>(2, 1)\<close>. The longest edge, between vertices 0 and 1, is
  an edge of the first triangle only. Below, the edge map after the first loop of
  \<open>refine\<close>, and the state of the main loop after its first pop and the midpoint of the
  popped edge: the first triangle is about to be split, its neighbour is not.
\<close>

definition pair_mesh :: "(Point3, Point2) Mesh" where
  "pair_mesh =
     \<lparr>vertices = [(0, 0, 0), (2, 0, 0), (1, 1, 0), (2, 1, 0)], tCoords = [],
      faces = [Face3 0 1 2, Face3 2 1 3]\<rparr>"

definition pair_edges :: "real EdgeMap" where
  "pair_edges =
     \<lparr>store =
        [\<lparr>v1 = 0, v2 = 1, f1 = 0, f2 = - 1, et1 = Some AB, et2 = None, elength = 2\<rparr>,
         \<lparr>v1 = 1, v2 = 2, f1 = 0, f2 = 1, et1 = Some BC, et2 = Some AB, elength = sqrt 2\<rparr>,
         \<lparr>v1 = 0, v2 = 2, f1 = - 1, f2 = 0, et1 = None, et2 = Some CA, elength = sqrt 2\<rparr>,
         \<lparr>v1 = 1, v2 = 3, f1 = 1, f2 = - 1, et1 = Some BC, et2 = None, elength = 1\<rparr>,
         \<lparr>v1 = 2, v2 = 3, f1 = - 1, f2 = 1, et1 = None, et2 = Some CA, elength = 1\<rparr>],
      emap = [(0, 1) \<mapsto> 0, (1, 2) \<mapsto> Suc 0, (0, 2) \<mapsto> Suc (Suc 0),
              (1, 3) \<mapsto> Suc (Suc (Suc 0)), (2, 3) \<mapsto> Suc (Suc (Suc (Suc 0)))],
      heap = [0, 1, 2, 3, 4]\<rparr>"

definition pair_popped_edges :: "real EdgeMap" where
  "pair_popped_edges =
     pair_edges\<lparr>emap := [(1, 2) \<mapsto> Suc 0, (0, 2) \<mapsto> Suc (Suc 0),
                         (1, 3) \<mapsto> Suc (Suc (Suc 0)), (2, 3) \<mapsto> Suc (Suc (Suc (Suc 0)))],
                heap := [2, 1, 4, 3]\<rparr>"

definition pair_popped_mesh :: "(Point3, Point2) Mesh" where
  "pair_popped_mesh = pair_mesh\<lparr>vertices := vertices pair_mesh @ [(1, 0, 0)]\<rparr>"

subsection \<open>Example files\<close>












section \<open>Properties of the removal of non-manifold edges\<close>

lemma map_of_addToKey:
  "map_of (addToKey key fi em) k =
     (if k = key then map_option (insert fi) (map_of em key) else map_of em k)"
  by (induction em) auto

lemma fst_addToKey: "map fst (addToKey key fi em) = map fst em"
  by (induction em) auto

lemma look_countEdge:
  "look (countEdge fi em key) k = (if k = key then insert fi (look em key) else look em k)"
  by (auto simp: look_def countEdge_def map_of_addToKey split: option.splits)

lemma distinct_countEdge:
  "distinct (map fst em) \<Longrightarrow> distinct (map fst (countEdge fi em key))"
  by (auto simp: countEdge_def fst_addToKey map_of_eq_None_iff split: option.splits)

lemma look_foldl_countEdge:
  "look (foldl (countEdge fi) em ks) k = (if k \<in> set ks then insert fi (look em k) else look em k)"
  by (induction ks arbitrary: em) (auto simp: look_countEdge)

lemma distinct_foldl_countEdge:
  "distinct (map fst em) \<Longrightarrow> distinct (map fst (foldl (countEdge fi) em ks))"
  by (induction ks arbitrary: em) (auto simp: distinct_countEdge)

lemma look_countFaces:
  "look (countFaces fi fs em) k =
     look em k \<union> {fi + j |j. j < length fs \<and> k \<in> set (edgeKeys (fs ! j))}"
proof (induction fs arbitrary: fi em)
  case Nil
  then show ?case by simp
next
  case (Cons face rest)
  have "{fi + j |j. j < length (face # rest) \<and> k \<in> set (edgeKeys ((face # rest) ! j))} =
        (if k \<in> set (edgeKeys face) then {fi} else {}) \<union>
        {Suc fi + j |j. j < length rest \<and> k \<in> set (edgeKeys (rest ! j))}"
    (is "?L = ?R")
  proof (intro set_eqI iffI)
    fix x assume "x \<in> ?L"
    then obtain j where j: "x = fi + j" "j < length (face # rest)" "k \<in> set (edgeKeys ((face # rest) ! j))"
      by blast
    show "x \<in> ?R"
    proof (cases j)
      case 0
      with j show ?thesis by simp
    next
      case (Suc j')
      with j have "x = Suc fi + j'" "j' < length rest" "k \<in> set (edgeKeys (rest ! j'))" by simp_all
      then show ?thesis by blast
    qed
  next
    fix x assume "x \<in> ?R"
    then consider "k \<in> set (edgeKeys face)" "x = fi"
      | j' where "x = Suc fi + j'" "j' < length rest" "k \<in> set (edgeKeys (rest ! j'))"
      by (auto split: if_splits)
    then show "x \<in> ?L"
    proof cases
      case 1
      then have "x = fi + 0 \<and> 0 < length (face # rest) \<and> k \<in> set (edgeKeys ((face # rest) ! 0))" by simp
      then show ?thesis by blast
    next
      case 2
      then have "x = fi + Suc j' \<and> Suc j' < length (face # rest) \<and> k \<in> set (edgeKeys ((face # rest) ! Suc j'))" by simp
      then show ?thesis by blast
    qed
  qed
  then show ?case
    by (auto simp add: Cons.IH look_foldl_countEdge)
qed

lemma distinct_countFaces:
  "distinct (map fst em) \<Longrightarrow> distinct (map fst (countFaces fi fs em))"
  by (induction fs arbitrary: fi em) (auto simp: distinct_foldl_countEdge)

lemma look_Nil: "look [] k = {}"
  by (simp add: look_def)

lemma look_countFaces_recorded: "look (countFaces 0 fs []) = recorded fs"
  by (rule ext) (simp add: look_countFaces recorded_def look_Nil)

lemma collectOmit_filter:
  "collectOmit em acc = acc \<union> \<Union> (snd ` set (filter (\<lambda>e. 2 < card (snd e)) em))"
proof (induction em arbitrary: acc)
  case Nil
  then show ?case by simp
next
  case (Cons e rest)
  obtain k s where e: "e = (k, s)" by (cases e)
  show ?case unfolding e by (simp add: Cons.IH Un_assoc)
qed

lemma collectOmit_eq:
  "collectOmit em acc = acc \<union> \<Union> {s. \<exists>k. (k, s) \<in> set em \<and> 2 < card s}"
proof -
  have "snd ` set (filter (\<lambda>e. 2 < card (snd e)) em) = {s. \<exists>k. (k, s) \<in> set em \<and> 2 < card s}"
    by force
  then show ?thesis by (simp add: collectOmit_filter)
qed

lemma entry_look: "distinct (map fst em) \<Longrightarrow> (k, s) \<in> set em \<Longrightarrow> look em k = s"
  by (simp add: look_def)

lemma look_entry: "look em k \<noteq> {} \<Longrightarrow> (k, look em k) \<in> set em"
  by (auto simp: look_def split: option.splits dest: map_of_SomeD)

lemma collectOmit_look:
  assumes "distinct (map fst em)"
  shows "collectOmit em {} = {i. \<exists>k. 2 < card (look em k) \<and> i \<in> look em k}"
proof -
  have "\<Union> {s. \<exists>k. (k, s) \<in> set em \<and> 2 < card s} = {i. \<exists>k. 2 < card (look em k) \<and> i \<in> look em k}"
  proof (intro set_eqI iffI)
    fix i assume "i \<in> \<Union> {s. \<exists>k. (k, s) \<in> set em \<and> 2 < card s}"
    then obtain k s where "(k, s) \<in> set em" "2 < card s" "i \<in> s" by blast
    with assms have "2 < card (look em k) \<and> i \<in> look em k" by (simp add: entry_look)
    then show "i \<in> {i. \<exists>k. 2 < card (look em k) \<and> i \<in> look em k}" by blast
  next
    fix i assume "i \<in> {i. \<exists>k. 2 < card (look em k) \<and> i \<in> look em k}"
    then obtain k where k: "2 < card (look em k)" "i \<in> look em k" by blast
    then have "(k, look em k) \<in> set em" by (intro look_entry) auto
    with k show "i \<in> \<Union> {s. \<exists>k. (k, s) \<in> set em \<and> 2 < card s}" by blast
  qed
  then show ?thesis by (simp add: collectOmit_eq)
qed

lemma facesToOmit_omitted:
  "collectOmit (countFaces 0 fs []) {} = {i. i < length fs \<and> omitted fs i}"
proof -
  have d: "distinct (map fst (countFaces 0 fs []))" by (simp add: distinct_countFaces)
  have three: "2 < n \<longleftrightarrow> 3 \<le> n" for n :: nat by arith
  have "{i. \<exists>k. 2 < card (recorded fs k) \<and> i \<in> recorded fs k} = {i. i < length fs \<and> omitted fs i}"
    unfolding omitted_def three by (auto simp: recorded_def)
  then show ?thesis
    by (simp add: collectOmit_look [OF d] look_countFaces_recorded)
qed

lemma keepFaces_eq:
  "keepFaces fi fs omit mesh =
     mesh\<lparr>faces := faces mesh @ map (\<lambda>j. reindexed (fs ! j)) (filter (\<lambda>j. fi + j \<notin> omit) [0..<length fs])\<rparr>"
proof (induction fs arbitrary: fi mesh)
  case Nil
  then show ?case by simp
next
  case (Cons face rest)
  have upt: "[0..<length (face # rest)] = 0 # map Suc [0..<length rest]"
    by (simp add: upt_conv_Cons map_Suc_upt del: upt_Suc)
  show ?case
    unfolding upt
    by (simp add: Cons.IH addFace_def reindexed_def filter_map comp_def del: upt_Suc)
qed

lemma edgeKeys_reindexed: "edgeKeys (reindexed face) = edgeKeys face"
  by (simp add: edgeKeys_def reindexed_def Face6_def)

lemma undirected_edges_reindexed: "undirected_edges (reindexed face) = undirected_edges face"
  by (simp add: undirected_edges_def reindexed_def Face6_def)

lemma finite_incident: "finite (incident fs key)"
  by (simp add: incident_def)

lemma finite_recorded: "finite (recorded fs key)"
  by (simp add: recorded_def)

lemma card_incident_le: "card (incident fs key) \<le> length fs"
proof -
  have "incident fs key \<subseteq> {..<length fs}" by (auto simp: incident_def)
  then have "card (incident fs key) \<le> card {..<length fs}" by (intro card_mono) auto
  then show ?thesis by simp
qed

text \<open>
  The code's key of an undirected edge of a face is one of the keys of the face: a face
  incident to an edge is recorded for the key of the edge.
\<close>

lemma key32_EdgeKey:
  "key32 (EdgeKey (int x) (int y)) = EdgeKey (int_of_size_t x) (int_of_size_t y)"
  by (auto simp: key32_def EdgeKey_def min_def max_def)

lemma key32_edgeKeys:
  "key \<in> set (undirected_edges face) \<Longrightarrow> key32 key \<in> set (edgeKeys face)"
  by (auto simp: undirected_edges_def edgeKeys_def key32_EdgeKey)

lemma incident_recorded: "incident fs key \<subseteq> recorded fs (key32 key)"
  by (auto simp: incident_def recorded_def key32_edgeKeys)

lemma incident_kept:
  assumes idxs: "distinct idxs" "set idxs \<subseteq> {i. i < length fs \<and> \<not> omitted fs i}"
  shows "card (incident (map (\<lambda>i. reindexed (fs ! i)) idxs) key) \<le> 2"
proof (cases "incident (map (\<lambda>i. reindexed (fs ! i)) idxs) key = {}")
  case True
  then show ?thesis by simp
next
  case False
  let ?out = "map (\<lambda>i. reindexed (fs ! i)) idxs"
  have sub: "(\<lambda>j. idxs ! j) ` incident ?out key \<subseteq> recorded fs (key32 key)"
  proof
    fix i assume "i \<in> (\<lambda>j. idxs ! j) ` incident ?out key"
    then obtain j where j: "i = idxs ! j" "j < length idxs"
      "key \<in> set (undirected_edges (fs ! (idxs ! j)))"
      by (auto simp: incident_def undirected_edges_reindexed)
    then have "idxs ! j \<in> set idxs" by simp
    with idxs(2) have "idxs ! j < length fs" by blast
    with j show "i \<in> recorded fs (key32 key)" by (simp add: recorded_def key32_edgeKeys)
  qed
  have inj: "inj_on (\<lambda>j. idxs ! j) (incident ?out key)"
    using idxs(1) by (auto simp: inj_on_def incident_def nth_eq_iff_index_eq)
  from False obtain j where j: "j < length idxs" "key \<in> set (undirected_edges (fs ! (idxs ! j)))"
    by (auto simp: incident_def undirected_edges_reindexed)
  then have "idxs ! j \<in> set idxs" by simp
  with idxs(2) have "\<not> omitted fs (idxs ! j)" by blast
  moreover from j have "key32 key \<in> set (edgeKeys (fs ! (idxs ! j)))" by (simp add: key32_edgeKeys)
  ultimately have small: "card (recorded fs (key32 key)) < 3" by (auto simp: omitted_def not_le)
  have "card (incident ?out key) = card ((\<lambda>j. idxs ! j) ` incident ?out key)"
    using inj by (simp add: card_image)
  also have "\<dots> \<le> card (recorded fs (key32 key))"
    using sub by (intro card_mono finite_recorded)
  finally show ?thesis using small by simp
qed

lemma rnme_faces:
  "faces (removeNonManifoldEdges m) =
     map (\<lambda>i. reindexed (faces m ! i)) (filter (\<lambda>i. \<not> omitted (faces m) i) [0..<length (faces m)])"
proof -
  have "filter (\<lambda>j. 0 + j \<notin> {i. i < length (faces m) \<and> omitted (faces m) i}) [0..<length (faces m)]
        = filter (\<lambda>i. \<not> omitted (faces m) i) [0..<length (faces m)]"
    by (rule filter_cong) auto
  then show ?thesis
    by (simp add: removeNonManifoldEdges_def Let_def facesToOmit_omitted keepFaces_eq)
qed

text \<open>
  When every vertex index is representable as \<^verbatim>\<open>int\<close> the keys of the code are the
  undirected edges, and the faces the code omits are the marked faces.
\<close>

lemma int_of_size_t_small: "n < 2147483648 \<Longrightarrow> int_of_size_t n = int n"
  by (simp add: int_of_size_t_def Let_def)

lemma edgeKeys_small:
  assumes "fits_32_bits m" "i < length (faces m)"
  shows "edgeKeys (faces m ! i) = undirected_edges (faces m ! i)"
proof -
  from assms have "a (faces m ! i) < 2147483648 \<and> b (faces m ! i) < 2147483648 \<and>
      c (faces m ! i) < 2147483648"
    by (simp add: fits_32_bits_def list_all_length)
  then show ?thesis by (simp add: edgeKeys_def undirected_edges_def int_of_size_t_small)
qed

lemma recorded_small:
  assumes "fits_32_bits m"
  shows "recorded (faces m) key = incident (faces m) key"
  using edgeKeys_small [OF assms] by (auto simp: recorded_def incident_def)

lemma omitted_small:
  assumes "fits_32_bits m" "i < length (faces m)"
  shows "omitted (faces m) i = marked (faces m) i"
  by (simp add: omitted_def marked_def recorded_small [OF assms(1)] edgeKeys_small [OF assms])

lemma rnme_faces_small:
  assumes "fits_32_bits m"
  shows "faces (removeNonManifoldEdges m) =
     map (\<lambda>i. reindexed (faces m ! i)) (filter (\<lambda>i. \<not> marked (faces m) i) [0..<length (faces m)])"
proof -
  have "filter (\<lambda>i. \<not> omitted (faces m) i) [0..<length (faces m)]
        = filter (\<lambda>i. \<not> marked (faces m) i) [0..<length (faces m)]"
    by (rule filter_cong) (simp_all add: omitted_small [OF assms])
  then show ?thesis by (simp add: rnme_faces)
qed

lemma not_marked_single:
  assumes "length fs < 3"
  shows "\<not> marked fs i"
proof
  assume "marked fs i"
  then obtain key where "3 \<le> card (incident fs key)" by (auto simp: marked_def)
  with card_incident_le [of fs key] assms show False by simp
qed

lemma fan_eval: "removeNonManifoldEdges fan = fan\<lparr>faces := []\<rparr>"
  by (simp add: removeNonManifoldEdges_def fan_def Face3_def edgeKeys_def EdgeKey_def countEdge_def
      int_of_size_t_def)

lemma fan_flap_eval:
  "removeNonManifoldEdges fan_flap = fan_flap\<lparr>faces := [Face6 2 3 4 0 0 0]\<rparr>"
  by (simp add: removeNonManifoldEdges_def fan_flap_def fan_def Face3_def Face6_def edgeKeys_def
      EdgeKey_def countEdge_def int_of_size_t_def addFace_def)

lemma fits_32_bits_fan_flap: "fits_32_bits fan_flap"
  by (simp add: fits_32_bits_def fan_flap_def fan_def Face3_def)


text \<open>
  Beyond that bound the keys of the code collide. In \<open>wide_faces\<close> the third face has the
  vertex \<open>2^32 + 1\<close>, whose key is that of vertex 1: the code records three faces for the
  key \<open>(0, 1)\<close> and returns no face, although no undirected edge has three incident
  faces.
\<close>

lemma wide_removed:
  assumes "faces m = wide_faces"
  shows "faces (removeNonManifoldEdges m) = []"
  by (simp add: removeNonManifoldEdges_def assms wide_faces_def Face3_def edgeKeys_def EdgeKey_def
      countEdge_def int_of_size_t_def)


lemma wide_edges:
  "set (undirected_edges (wide_faces ! 0)) = {(0, 1), (1, 2), (0, 2)}"
  "set (undirected_edges (wide_faces ! 1)) = {(0, 1), (1, 3), (0, 3)}"
  "set (undirected_edges (wide_faces ! 2)) = {(0, 4294967297), (4, 4294967297), (0, 4)}"
  "length wide_faces = 3"
  by (simp_all add: wide_faces_def undirected_edges_def Face3_def EdgeKey_def)

lemma wide_incident:
  "incident wide_faces key \<subseteq> {0, 1} \<or> incident wide_faces key \<subseteq> {2}"
proof (cases "key \<in> set (undirected_edges (wide_faces ! 2))")
  case True
  then have "key \<notin> set (undirected_edges (wide_faces ! 0))"
    "key \<notin> set (undirected_edges (wide_faces ! 1))"
    unfolding wide_edges by auto
  moreover have "i = 0 \<or> i = 1 \<or> i = 2" if "i < 3" for i :: nat using that by arith
  ultimately have "incident wide_faces key \<subseteq> {2}"
    unfolding incident_def wide_edges(4) by blast
  then show ?thesis ..
next
  case False
  moreover have "i = 0 \<or> i = 1 \<or> i = 2" if "i < 3" for i :: nat using that by arith
  ultimately have "incident wide_faces key \<subseteq> {0, 1}"
    unfolding incident_def wide_edges(4) by blast
  then show ?thesis ..
qed

lemma wide_unmarked: "\<not> marked wide_faces i"
proof
  assume "marked wide_faces i"
  then obtain key where k: "3 \<le> card (incident wide_faces key)" by (auto simp: marked_def)
  from wide_incident [of key] have "card (incident wide_faces key) \<le> 2"
  proof
    assume "incident wide_faces key \<subseteq> {0, 1}"
    then have "card (incident wide_faces key) \<le> card {0, 1 :: nat}" by (intro card_mono) auto
    then show ?thesis by simp
  next
    assume "incident wide_faces key \<subseteq> {2}"
    then have "card (incident wide_faces key) \<le> card {2 :: nat}" by (intro card_mono) auto
    then show ?thesis by simp
  qed
  with k show False by simp
qed

text \<open>
  C3: in the mesh returned by \<open>removeNonManifoldEdges\<close>, every undirected edge is incident
  to at most two faces. No assumption on the input mesh is needed: the function never
  reads the vertex array, and an index that does not fit \<^verbatim>\<open>int\<close> can only make the code
  omit more faces.
\<close>

theorem removeNonManifoldEdges_manifold:
  "card (incident (faces (removeNonManifoldEdges m)) key) \<le> 2"
  unfolding rnme_faces by (rule incident_kept) auto

theorem removeNonManifoldEdges_manifold_witness:
  "card (incident (faces (removeNonManifoldEdges fan)) (EdgeKey 0 1)) \<le> 2"
  by (rule removeNonManifoldEdges_manifold)

text \<open>
  C7, as the code has it: the vertex and texture-coordinate arrays are returned
  unchanged. When every vertex index of a face is representable as \<^verbatim>\<open>int\<close> (below
  \<open>2^31\<close>) and the mesh has fewer than \<open>2^32\<close> faces, the faces are the faces of the
  input that are not marked for removal, in their original order, each rebuilt from
  its six indices by \<open>addFace\<close>. The surface tag of a retained face is not carried
  over: it is the default tag.
\<close>

theorem removeNonManifoldEdges_frame:
  "vertices (removeNonManifoldEdges m) = vertices m \<and>
   tCoords (removeNonManifoldEdges m) = tCoords m \<and>
   (fits_32_bits m \<longrightarrow>
      faces (removeNonManifoldEdges m) =
        map (\<lambda>i. reindexed (faces m ! i))
          (filter (\<lambda>i. \<not> marked (faces m) i) [0..<length (faces m)]))"
proof -
  have "vertices (removeNonManifoldEdges m) = vertices m"
    by (simp add: removeNonManifoldEdges_def Let_def keepFaces_eq)
  moreover have "tCoords (removeNonManifoldEdges m) = tCoords m"
    by (simp add: removeNonManifoldEdges_def Let_def keepFaces_eq)
  ultimately show ?thesis by (simp add: rnme_faces_small)
qed

text \<open>
  The fan with a fourth, separate triangle: the three faces of the fan are removed and
  the fourth is retained, with both arrays as they were.
\<close>

theorem removeNonManifoldEdges_frame_witness:
  "fits_32_bits fan_flap \<and>
   vertices (removeNonManifoldEdges fan_flap) = vertices fan_flap \<and>
   tCoords (removeNonManifoldEdges fan_flap) = tCoords fan_flap \<and>
   map (\<lambda>i. reindexed (faces fan_flap ! i))
     (filter (\<lambda>i. \<not> marked (faces fan_flap) i) [0..<length (faces fan_flap)]) =
     [Face6 2 3 4 0 0 0]"
  using removeNonManifoldEdges_frame [of fan_flap] fits_32_bits_fan_flap
  by (simp add: fan_flap_eval)

text \<open>
  C7 as stated fails: the single face of \<open>tagged_triangle\<close> is not marked, yet the face
  returned is not the face of the input, whose tag is 1.
\<close>

theorem removeNonManifoldEdges_frame_counterexample:
  "faces (removeNonManifoldEdges tagged_triangle) \<noteq>
     map (\<lambda>i. faces tagged_triangle ! i)
       (filter (\<lambda>i. \<not> marked (faces tagged_triangle) i) [0..<length (faces tagged_triangle)])"
proof -
  have "\<not> marked (faces tagged_triangle) 0"
    by (rule not_marked_single) (simp add: tagged_triangle_def)
  moreover have "fits_32_bits tagged_triangle"
    by (simp add: fits_32_bits_def tagged_triangle_def)
  ultimately show ?thesis
    by (simp add: rnme_faces_small) (simp add: tagged_triangle_def reindexed_def Face6_def)
qed

section \<open>Properties of clipping and welding\<close>

lemma index_of_less: "p \<in> set vs \<Longrightarrow> index_of vs p < length vs"
  by (induction vs) auto

lemma nth_index_of: "p \<in> set vs \<Longrightarrow> vs ! index_of vs p = p"
  by (induction vs) auto

lemma index_of_append: "p \<in> set vs \<Longrightarrow> index_of (vs @ ys) p = index_of vs p"
  by (induction vs) auto

lemma index_of_snoc_new: "p \<notin> set vs \<Longrightarrow> index_of (vs @ [p]) p = length vs"
  by (induction vs) auto

lemma index_of_inj:
  "p \<in> set vs \<Longrightarrow> q \<in> set vs \<Longrightarrow> index_of vs p = index_of vs q \<longleftrightarrow> p = q"
  by (metis nth_index_of)

lemma set_add_new: "set (add_new vs p) = insert p (set vs)"
  by (auto simp: add_new_def)

lemma distinct_add_new: "distinct vs \<Longrightarrow> distinct (add_new vs p)"
  by (simp add: add_new_def)

lemma index_of_add_new: "q \<in> set vs \<Longrightarrow> index_of (add_new vs p) q = index_of vs q"
  by (simp add: add_new_def index_of_append)

lemma idx_map_snoc: "p \<notin> set vs \<Longrightarrow> (idx_map vs)(p \<mapsto> length vs) = idx_map (vs @ [p])"
  by (rule ext) (auto simp: idx_map_def index_of_append index_of_snoc_new)

lemma weldCorner_inv:
  "weldCorner p (idx_map vs, length vs, \<lparr>vertices = vs, tCoords = ts, faces = fs\<rparr>) =
     (index_of (add_new vs p) p,
      (idx_map (add_new vs p), length (add_new vs p),
       \<lparr>vertices = add_new vs p, tCoords = ts, faces = fs\<rparr>))"
proof (cases "p \<in> set vs")
  case True
  then have "\<not> length vs \<le> index_of vs p" by (simp add: index_of_less not_le)
  with True show ?thesis
    by (simp add: weldCorner_def add_new_def idx_map_def)
next
  case False
  then have "idx_map vs p = None" by (simp add: idx_map_def)
  with False show ?thesis
    by (simp add: weldCorner_def add_new_def idx_map_snoc index_of_snoc_new)
qed

lemma weldTriangle_inv:
  "weldTriangle (idx_map vs, length vs, \<lparr>vertices = vs, tCoords = ts, faces = fs\<rparr>) triangle =
     (idx_map (add3 vs triangle), length (add3 vs triangle),
      \<lparr>vertices = add3 vs triangle, tCoords = ts,
       faces = fs @ (if nondegenerate (add3 vs triangle) triangle
                     then [welded_face (add3 vs triangle) triangle] else [])\<rparr>)"
proof -
  obtain p0 p1 p2 where t: "triangle = (p0, p1, p2)" by (cases triangle)
  let ?v0 = "add_new vs p0"
  let ?v1 = "add_new ?v0 p1"
  let ?v2 = "add_new ?v1 p2"
  have i0: "index_of ?v2 p0 = index_of ?v0 p0"
    by (simp add: index_of_add_new set_add_new)
  have i1: "index_of ?v2 p1 = index_of ?v1 p1"
    by (simp add: index_of_add_new set_add_new)
  show ?thesis
    unfolding t weldTriangle_def
    by (simp add: weldCorner_inv add3_def nondegenerate_def welded_face_def i0 i1 addFace3_def)
qed



lemma set_add3: "set (add3 vs triangle) = set vs \<union> set (corners [triangle])"
  by (cases triangle) (auto simp: add3_def set_add_new corners_def)

lemma index_of_add3: "q \<in> set vs \<Longrightarrow> index_of (add3 vs triangle) q = index_of vs q"
  by (cases triangle) (simp add: add3_def index_of_add_new set_add_new)

lemma index_of_foldl_add3:
  "q \<in> set vs \<Longrightarrow> index_of (foldl add3 vs clipped) q = index_of vs q"
  by (induction clipped arbitrary: vs) (simp_all add: index_of_add3 set_add3)

lemma corner_in_add3:
  "triangle = (p0, p1, p2) \<Longrightarrow> p0 \<in> set (add3 vs triangle) \<and> p1 \<in> set (add3 vs triangle) \<and> p2 \<in> set (add3 vs triangle)"
  by (simp add: add3_def set_add_new)

lemma welded_face_stable:
  "welded_face (foldl add3 (add3 vs triangle) rest) triangle = welded_face (add3 vs triangle) triangle"
proof -
  obtain p0 p1 p2 where t: "triangle = (p0, p1, p2)" by (cases triangle)
  from corner_in_add3 [OF t, of vs] show ?thesis
    unfolding welded_face_def t by (simp add: index_of_foldl_add3)
qed

lemma nondegenerate_stable:
  "nondegenerate (foldl add3 (add3 vs triangle) rest) triangle = nondegenerate (add3 vs triangle) triangle"
proof -
  obtain p0 p1 p2 where t: "triangle = (p0, p1, p2)" by (cases triangle)
  from corner_in_add3 [OF t, of vs] show ?thesis
    unfolding nondegenerate_def t by (simp add: index_of_foldl_add3)
qed

lemma weld_fold:
  "foldl weldTriangle (idx_map vs, length vs, \<lparr>vertices = vs, tCoords = ts, faces = fs\<rparr>) clipped =
     (idx_map (foldl add3 vs clipped), length (foldl add3 vs clipped),
      \<lparr>vertices = foldl add3 vs clipped, tCoords = ts,
       faces = fs @ map (welded_face (foldl add3 vs clipped))
                      (filter (nondegenerate (foldl add3 vs clipped)) clipped)\<rparr>)"
proof (induction clipped arbitrary: vs fs)
  case Nil
  then show ?case by simp
next
  case (Cons triangle rest)
  show ?case
    by (simp add: weldTriangle_inv Cons.IH welded_face_stable nondegenerate_stable)
qed

lemma idx_map_Nil: "idx_map [] = Map.empty"
  by (rule ext) (simp add: idx_map_def)

lemma foldl_add3_corners: "foldl add3 vs clipped = foldl add_new vs (corners clipped)"
proof (induction clipped arbitrary: vs)
  case Nil
  then show ?case by (simp add: corners_def)
next
  case (Cons triangle rest)
  obtain p0 p1 p2 where t: "triangle = (p0, p1, p2)" by (cases triangle)
  have c: "corners (triangle # rest) = [p0, p1, p2] @ corners rest"
    by (simp add: corners_def t)
  have s: "add3 vs triangle = foldl add_new vs [p0, p1, p2]"
    by (simp add: add3_def t)
  have "foldl add3 vs (triangle # rest) = foldl add3 (add3 vs triangle) rest" by simp
  also have "\<dots> = foldl add_new (add3 vs triangle) (corners rest)" by (rule Cons.IH)
  also have "\<dots> = foldl add_new vs (corners (triangle # rest))"
    unfolding c s by simp
  finally show ?case .
qed

lemma foldl_add_new_first_seen:
  "distinct vs \<Longrightarrow> foldl add_new vs ps = first_seen (vs @ ps)"
proof (induction ps rule: rev_induct)
  case Nil
  then show ?case by (simp add: first_seen_def distinct_remdups_id)
next
  case (snoc p ps)
  then show ?case by (simp add: first_seen_def add_new_def)
qed

lemma weld_eq:
  "(weld clipped :: ('p, 't) Mesh) =
     \<lparr>vertices = first_seen (corners clipped), tCoords = [],
      faces = map (welded_face (first_seen (corners clipped)))
                (filter (nondegenerate (first_seen (corners clipped))) clipped)\<rparr>"
proof -
  have "foldl add3 [] clipped = first_seen (corners clipped)"
    by (simp add: foldl_add3_corners foldl_add_new_first_seen)
  with weld_fold [of "[]" "[]::'t list" "[]" clipped] show ?thesis
    by (simp add: weld_def idx_map_Nil)
qed

lemma distinct_first_seen: "distinct (first_seen ps)"
  by (simp add: first_seen_def)

lemma set_first_seen: "set (first_seen ps) = set ps"
  by (simp add: first_seen_def)


lemma first_seen_snoc:
  "first_seen (ps @ [p]) = (if p \<in> set ps then first_seen ps else first_seen ps @ [p])"
  by (simp add: first_seen_def)

lemma clip_Some:
  "clippedTriangles clipTriangles omesh extents = Some clipped \<Longrightarrow>
     clip clipTriangles omesh extents = Some (weld clipped)"
  by (simp add: clip_def)

lemma clip_SomeD:
  "clip clipTriangles omesh extents = Some pmesh \<Longrightarrow>
     \<exists>clipped. clippedTriangles clipTriangles omesh extents = Some clipped \<and> pmesh = weld clipped"
  by (auto simp: clip_def split: option.splits)

lemma faceTriangles_ok:
  "list_all (face_ok (length vs) nt) fs \<Longrightarrow> \<exists>clipped. faceTriangles vs fs = Some clipped"
  by (induction fs) (auto simp: face_ok_def)

lemma clippedTriangles_ok:
  "mesh_ok omesh \<Longrightarrow> \<exists>clipped. clippedTriangles clipTriangles omesh extents = Some clipped"
  unfolding mesh_ok_def clippedTriangles_def
  by (drule faceTriangles_ok) auto

lemma mesh_ok_weld: "mesh_ok (weld clipped :: ('p, 't) Mesh)"
proof -
  let ?V = "first_seen (corners clipped)"
  have "face_ok (length ?V) 0 (welded_face ?V triangle)" if "triangle \<in> set clipped" for triangle
  proof -
    obtain p0 p1 p2 where t: "triangle = (p0, p1, p2)" by (cases triangle)
    with that have "p0 \<in> set ?V" "p1 \<in> set ?V" "p2 \<in> set ?V"
      by (auto simp: set_first_seen corners_def)
    then show ?thesis
      by (simp add: t welded_face_def face_ok_def Face3_def index_of_less)
  qed
  then show ?thesis
    by (simp add: weld_eq mesh_ok_def list_all_iff)
qed

lemma clipped_example:
  "clippedTriangles clipTriangles_spec textured_triangle unit_box = Some cut_triangles"
  by (simp add: clippedTriangles_def textured_triangle_def unit_box_def Face6_def
    clipPasses_def planes_def clipTriangle_def signedDistance_def loneInside_def loneOutside_def
    crossing_def Let_def cut_triangles_def)

lemma weld_example: "weld cut_triangles = cut_mesh"
  by (simp add: weld_def weldTriangle_def weldCorner_def addFace3_def Face3_def
    cut_triangles_def cut_mesh_def)

lemma clip_example: "clip clipTriangles_spec textured_triangle unit_box = Some cut_mesh"
  by (simp add: clip_def clipped_example weld_example)

lemma clip_preserves_mesh_ok:
  assumes "mesh_ok omesh"
  shows "\<exists>pmesh. clip clipTriangles omesh extents = Some pmesh \<and> mesh_ok pmesh"
  using clippedTriangles_ok [OF assms, of clipTriangles extents]
  by (auto simp: clip_def mesh_ok_weld)

text \<open>
  C5: the vertex array of the mesh returned by \<open>clip\<close> has no position twice, and it
  lists the corners of the clipped triangles in first-seen order: a corner met for the
  first time takes the next unused index (\<open>first_seen_snoc\<close>).
\<close>

theorem clip_welds_positions:
  assumes "clippedTriangles clipTriangles omesh extents = Some clipped"
    and "clip clipTriangles omesh extents = Some pmesh"
  shows "distinct (vertices pmesh) \<and> vertices pmesh = first_seen (corners clipped)"
  using assms by (auto simp: clip_def weld_eq distinct_first_seen)

theorem clip_welds_positions_witness:
  "clippedTriangles clipTriangles_spec textured_triangle unit_box = Some cut_triangles \<and>
   clip clipTriangles_spec textured_triangle unit_box = Some cut_mesh \<and>
   distinct (vertices cut_mesh) \<and> vertices cut_mesh = first_seen (corners cut_triangles)"
  using clip_welds_positions [OF clipped_example clip_example] clipped_example clip_example
  by blast

text \<open>
  C6: the faces of the mesh returned by \<open>clip\<close> are, in order, the clipped triangles
  whose three welded indices are pairwise distinct, each with its welded indices; a
  triangle with two equal welded indices is dropped.
\<close>

theorem clip_drops_degenerate:
  assumes "clippedTriangles clipTriangles omesh extents = Some clipped"
    and "clip clipTriangles omesh extents = Some pmesh"
  shows "faces pmesh =
           map (welded_face (vertices pmesh)) (filter (nondegenerate (vertices pmesh)) clipped)"
  using assms by (auto simp: clip_def weld_eq)

theorem clip_drops_degenerate_witness:
  "clippedTriangles clipTriangles_spec textured_triangle unit_box = Some cut_triangles \<and>
   clip clipTriangles_spec textured_triangle unit_box = Some cut_mesh \<and>
   faces cut_mesh =
     map (welded_face (vertices cut_mesh)) (filter (nondegenerate (vertices cut_mesh)) cut_triangles)"
  using clip_drops_degenerate [OF clipped_example clip_example] clipped_example clip_example
  by blast

text \<open>
  C1, as the code has it: \<open>clip\<close> hands only the three positions of each face to the
  plane clipper and welds positions only. Its result does not depend on the texture
  coordinates of the input, the mesh it returns has an empty texture-coordinate array,
  and every face of that mesh has the default texture indices.
\<close>

theorem clip_discards_tCoords:
  "clip clipTriangles (omesh\<lparr>tCoords := ts\<rparr>) extents = clip clipTriangles omesh extents \<and>
   (\<forall>pmesh. clip clipTriangles omesh extents = Some pmesh \<longrightarrow>
      tCoords pmesh = [] \<and> list_all (\<lambda>f. ta f = 0 \<and> tb f = 0 \<and> tc f = 0) (faces pmesh))"
proof -
  have "list_all (\<lambda>f. ta f = 0 \<and> tb f = 0 \<and> tc f = 0)
          (faces (weld clipped :: ('a \<times> 'a \<times> 'a, 'b) Mesh))" for clipped
    by (auto simp: weld_eq list_all_iff welded_face_def Face3_def)
  then show ?thesis
    by (auto simp: clip_def clippedTriangles_def weld_eq split: option.splits)
qed

theorem clip_discards_tCoords_witness:
  "clip clipTriangles_spec (textured_triangle\<lparr>tCoords := []\<rparr>) unit_box =
     clip clipTriangles_spec textured_triangle unit_box \<and>
   clip clipTriangles_spec textured_triangle unit_box = Some cut_mesh \<and>
   tCoords cut_mesh = [] \<and> list_all (\<lambda>f. ta f = 0 \<and> tb f = 0 \<and> tc f = 0) (faces cut_mesh)"
  using clip_discards_tCoords [where clipTriangles = clipTriangles_spec and omesh = textured_triangle
      and ts = "[]" and extents = unit_box] clip_example
  by blast

text \<open>
  C1 as stated fails: \<open>textured_triangle\<close> has texture coordinates and is cut by the planes
  \<open>x \<le> 1\<close> and \<open>y \<le> 1\<close> of \<open>unit_box\<close>, and the mesh returned has two faces and no texture
  coordinate for them.
\<close>

theorem clip_texture_counterexample:
  "tCoords textured_triangle \<noteq> [] \<and>
   clip clipTriangles_spec textured_triangle unit_box = Some cut_mesh \<and>
   length (faces cut_mesh) = 2 \<and> tCoords cut_mesh = [] \<and> \<not> textured cut_mesh"
  by (simp add: clip_example) (simp add: textured_triangle_def cut_mesh_def textured_def)

section \<open>Properties of the refinement\<close>

subsection \<open>The loop keeps the invariant\<close>

lemma slot_ok_mono: "slot_ok nf f et \<Longrightarrow> nf \<le> nf' \<Longrightarrow> slot_ok nf' f et"
  by (auto simp: slot_ok_def)

lemma edge_ok_mono: "edge_ok nv nf e \<Longrightarrow> nv \<le> nv' \<Longrightarrow> nf \<le> nf' \<Longrightarrow> edge_ok nv' nf' e"
  by (auto simp: edge_ok_def intro: slot_ok_mono)

lemma em_ok_mono: "em_ok nv nf em \<Longrightarrow> nv \<le> nv' \<Longrightarrow> nf \<le> nf' \<Longrightarrow> em_ok nv' nf' em"
  unfolding em_ok_def by (blast intro: edge_ok_mono)

lemma em_okD1:
  "em_ok nv nf em \<Longrightarrow> r \<in> set (heap em) \<Longrightarrow>
     r < length (store em) \<and> edge_ok nv nf (store em ! r)"
  unfolding em_ok_def by blast

lemma em_okD2:
  "em_ok nv nf em \<Longrightarrow> emap em k = Some r \<Longrightarrow>
     r \<in> set (heap em) \<and> EdgeKey (v1 (store em ! r)) (v2 (store em ! r)) = k"
  unfolding em_ok_def by blast

lemma em_okI:
  assumes "\<And>r. r \<in> set (heap em) \<Longrightarrow> r < length (store em) \<and> edge_ok nv nf (store em ! r)"
    and "\<And>k r. emap em k = Some r \<Longrightarrow>
           r \<in> set (heap em) \<and> EdgeKey (v1 (store em ! r)) (v2 (store em ! r)) = k"
  shows "em_ok nv nf em"
  unfolding em_ok_def using assms by blast

lemma EdgeKey_min_max: "EdgeKey (min x y) (max x y) = EdgeKey x y"
  by (simp add: EdgeKey_def)

lemma Edge_addFace_v [simp]:
  "v1 (Edge_addFace p q fid type e) = v1 e" "v2 (Edge_addFace p q fid type e) = v2 e"
  by (simp_all add: Edge_addFace_def)

lemma edge_ok_addFace:
  assumes "0 \<le> v1 e" "v1 e < int nv" "0 \<le> v2 e" "v2 e < int nv"
    and "slot_ok nf (f1 e) (et1 e)" "slot_ok nf (f2 e) (et2 e)"
    and "0 \<le> fid" "fid < int nf"
  shows "edge_ok nv nf (Edge_addFace p q fid type e)"
  using assms by (auto simp: edge_ok_def Edge_addFace_def slot_ok_def)

lemma edge_ok_addFace_old:
  "edge_ok nv nf e \<Longrightarrow> 0 \<le> fid \<Longrightarrow> fid < int nf \<Longrightarrow> edge_ok nv nf (Edge_addFace p q fid type e)"
  by (rule edge_ok_addFace) (auto simp: edge_ok_def)

lemma edge_ok_addFace_new:
  assumes "0 \<le> p" "p < int nv" "0 \<le> q" "q < int nv" "0 \<le> fid" "fid < int nf"
  shows "edge_ok nv nf (Edge_addFace p q fid type (Edge p q len))"
  using assms by (intro edge_ok_addFace) (auto simp: Edge_def slot_ok_def)

lemma addFaceEdge_ok:
  assumes ok: "em_ok nv nf em"
    and p: "0 \<le> p" "p < int nv" and q: "0 \<le> q" "q < int nv"
    and fid: "0 \<le> fid" "fid < int nf"
  shows "em_ok nv nf (addFaceEdge N p q fid type len em) \<and>
         emap (addFaceEdge N p q fid type len em) (EdgeKey p q) \<noteq> None"
proof (cases "emap em (EdgeKey p q)")
  case (Some it)
  let ?st = "(store em)[it := Edge_addFace p q fid type (store em ! it)]"
  have em': "addFaceEdge N p q fid type len em = em\<lparr>store := ?st\<rparr>"
    by (simp add: addFaceEdge_def Some)
  have H: "r < length ?st \<and> edge_ok nv nf (?st ! r)" if "r \<in> set (heap em)" for r
  proof -
    from em_okD1 [OF ok that] have r: "r < length (store em)" "edge_ok nv nf (store em ! r)"
      by auto
    show ?thesis
    proof (cases "r = it")
      case True
      with r fid show ?thesis by (simp add: edge_ok_addFace_old)
    next
      case False
      with r show ?thesis by simp
    qed
  qed
  have K: "r \<in> set (heap em) \<and> EdgeKey (v1 (?st ! r)) (v2 (?st ! r)) = k"
    if "emap em k = Some r" for k r
  proof -
    from em_okD2 [OF ok that]
    have r: "r \<in> set (heap em)" "EdgeKey (v1 (store em ! r)) (v2 (store em ! r)) = k"
      by auto
    with em_okD1 [OF ok] have "r < length (store em)" by blast
    with r show ?thesis by (cases "r = it") simp_all
  qed
  have "em_ok nv nf (em\<lparr>store := ?st\<rparr>)"
    by (rule em_okI) (use H K in simp_all)
  then show ?thesis by (simp add: em' Some)
next
  case None
  let ?e = "Edge_addFace p q fid type (Edge p q len)"
  let ?st = "store em @ [?e]"
  let ?bk = "length (store em)"
  let ?heap = "push_heap (compareEdgePtr N ?st) (heap em @ [?bk])"
  have em': "addFaceEdge N p q fid type len em =
      \<lparr>store = ?st, emap = (emap em)(EdgeKey p q \<mapsto> ?bk), heap = ?heap\<rparr>"
    by (simp add: addFaceEdge_def None Let_def)
  have sh: "set ?heap = insert ?bk (set (heap em))" by simp
  have H: "r < length ?st \<and> edge_ok nv nf (?st ! r)" if "r \<in> set ?heap" for r
  proof (cases "r = ?bk")
    case True
    with p q fid show ?thesis by (simp add: edge_ok_addFace_new)
  next
    case False
    with that sh have "r \<in> set (heap em)" by blast
    from em_okD1 [OF ok this] have "r < length (store em)" "edge_ok nv nf (store em ! r)"
      by auto
    then show ?thesis by (simp add: nth_append)
  qed
  have K: "r \<in> set ?heap \<and> EdgeKey (v1 (?st ! r)) (v2 (?st ! r)) = k"
    if "((emap em)(EdgeKey p q \<mapsto> ?bk)) k = Some r" for k r
  proof (cases "k = EdgeKey p q")
    case True
    with that have "r = ?bk" by simp
    with True show ?thesis by (simp add: Edge_def EdgeKey_min_max)
  next
    case False
    with that have kr: "emap em k = Some r" by simp
    from em_okD2 [OF ok kr]
    have r: "r \<in> set (heap em)" "EdgeKey (v1 (store em ! r)) (v2 (store em ! r)) = k"
      by auto
    with em_okD1 [OF ok] have "r < length (store em)" by blast
    with r show ?thesis by (simp add: nth_append)
  qed
  have "em_ok nv nf \<lparr>store = ?st, emap = (emap em)(EdgeKey p q \<mapsto> ?bk), heap = ?heap\<rparr>"
    by (rule em_okI) (use H K in \<open>simp_all del: set_push_heap\<close>)
  then show ?thesis by (simp add: em')
qed

lemma em_ok_heap_nonempty:
  assumes "em_ok nv nf em" "emap em k \<noteq> None"
  shows "heap em \<noteq> []"
proof -
  from assms(2) obtain r where "emap em k = Some r" by auto
  from em_okD2 [OF assms(1) this] show ?thesis by auto
qed

lemma addFaceEdges_ok:
  assumes ok: "em_ok (length (vertices mesh)) (length (faces mesh)) em"
    and fid: "fid < length (faces mesh)"
    and face: "face_ok (length (vertices mesh)) nt (faces mesh ! fid)"
  shows "\<exists>em'. addFaceEdges N mesh fid em = Some em' \<and>
           em_ok (length (vertices mesh)) (length (faces mesh)) em' \<and> heap em' \<noteq> []"
proof -
  let ?nv = "length (vertices mesh)" and ?nf = "length (faces mesh)"
  let ?f = "faces mesh ! fid"
  from face have v: "a ?f < ?nv" "b ?f < ?nv" "c ?f < ?nv" by (auto simp: face_ok_def)
  define l1 where "l1 = norm_2_diff N (vertices mesh ! a ?f) (vertices mesh ! b ?f)"
  define l2 where "l2 = norm_2_diff N (vertices mesh ! b ?f) (vertices mesh ! c ?f)"
  define l3 where "l3 = norm_2_diff N (vertices mesh ! c ?f) (vertices mesh ! a ?f)"
  define em1 where "em1 = addFaceEdge N (int (a ?f)) (int (b ?f)) (int fid) AB l1 em"
  define em2 where "em2 = addFaceEdge N (int (b ?f)) (int (c ?f)) (int fid) BC l2 em1"
  define em3 where "em3 = addFaceEdge N (int (c ?f)) (int (a ?f)) (int fid) CA l3 em2"
  have res: "addFaceEdges N mesh fid em = Some em3"
    using fid v by (simp add: addFaceEdges_def Let_def em3_def em2_def em1_def l1_def l2_def l3_def)
  have 1: "em_ok ?nv ?nf em1"
    unfolding em1_def using ok v fid by (intro addFaceEdge_ok [THEN conjunct1]) simp_all
  have 2: "em_ok ?nv ?nf em2"
    unfolding em2_def using 1 v fid by (intro addFaceEdge_ok [THEN conjunct1]) simp_all
  have 3: "em_ok ?nv ?nf em3 \<and> emap em3 (EdgeKey (int (c ?f)) (int (a ?f))) \<noteq> None"
    unfolding em3_def using 2 v fid by (intro addFaceEdge_ok) simp_all
  then have "heap em3 \<noteq> []" using em_ok_heap_nonempty by blast
  with res 3 show ?thesis by simp
qed

lemma in_set_butlast_pop_heap:
  assumes "xs \<noteq> []" "r \<in> set xs" "r \<noteq> xs ! 0"
  shows "r \<in> set (butlast (pop_heap cmp xs))"
proof -
  from assms have "r \<in># mset xs - {#xs ! 0#}" by (simp add: in_diff_count)
  then show ?thesis using mset_butlast_pop_heap [OF assms(1), of cmp]
    by (metis set_mset_mset)
qed

lemma set_butlast_pop_heap_subset:
  assumes "xs \<noteq> []"
  shows "set (butlast (pop_heap cmp xs)) \<subseteq> set xs"
proof -
  have "set_mset (mset xs - {#xs ! 0#}) \<subseteq> set_mset (mset xs)"
    by (meson in_diffD subsetI)
  then show ?thesis using mset_butlast_pop_heap [OF assms, of cmp]
    by (metis set_mset_mset)
qed

lemma pop_top_edge_ok:
  assumes ok: "em_ok nv nf em" and ne: "heap em \<noteq> []"
    and pop: "pop_top_edge N em = (edge, em1)"
  shows "edge_ok nv nf edge \<and> em_ok nv nf em1"
proof -
  let ?r0 = "heap em ! 0"
  let ?cmp = "compareEdgePtr N (store em)"
  from pop have edge: "edge = store em ! ?r0"
    and em1: "em1 = em\<lparr>heap := butlast (pop_heap ?cmp (heap em)),
                       emap := (emap em)(EdgeKey (v1 edge) (v2 edge) := None)\<rparr>"
    by (auto simp: pop_top_edge_def Let_def)
  from ne have "?r0 \<in> set (heap em)" by simp
  from em_okD1 [OF ok this] have e: "edge_ok nv nf edge" by (simp add: edge)
  have H: "r < length (store em) \<and> edge_ok nv nf (store em ! r)"
    if "r \<in> set (butlast (pop_heap ?cmp (heap em)))" for r
    using that set_butlast_pop_heap_subset [OF ne, of ?cmp] em_okD1 [OF ok] by blast
  have K: "r \<in> set (butlast (pop_heap ?cmp (heap em))) \<and>
           EdgeKey (v1 (store em ! r)) (v2 (store em ! r)) = k"
    if "((emap em)(EdgeKey (v1 edge) (v2 edge) := None)) k = Some r" for k r
  proof -
    from that have k: "k \<noteq> EdgeKey (v1 edge) (v2 edge)" "emap em k = Some r"
      by (auto split: if_splits)
    from em_okD2 [OF ok k(2)]
    have r: "r \<in> set (heap em)" "EdgeKey (v1 (store em ! r)) (v2 (store em ! r)) = k"
      by auto
    with k have "r \<noteq> ?r0" by (auto simp: edge)
    with r ne show ?thesis by (simp add: in_set_butlast_pop_heap)
  qed
  have "em_ok nv nf em1"
    unfolding em1 by (rule em_okI) (use H K in simp_all)
  with e show ?thesis by simp
qed


lemma mesh_ok_nth:
  "mesh_ok mesh \<Longrightarrow> fid < length (faces mesh) \<Longrightarrow>
     face_ok (length (vertices mesh)) (length (tCoords mesh)) (faces mesh ! fid)"
  by (simp add: mesh_ok_def list_all_length)

lemma face_ok_mono:
  "face_ok nv nt face \<Longrightarrow> nv \<le> nv' \<Longrightarrow> nt \<le> nt' \<Longrightarrow> (nt = 0 \<longrightarrow> nt' = 0) \<Longrightarrow>
     face_ok nv' nt' face"
  by (auto simp: face_ok_def)

lemma list_all_snoc_update:
  "list_all P fs \<Longrightarrow> P n \<Longrightarrow> P u \<Longrightarrow> list_all P ((fs @ [n])[fid := u])"
  by (auto simp: list_all_iff dest!: set_update_subset_insert [THEN subsetD])

lemma reinsert_ok:
  assumes m: "mesh_ok mesh" and ok: "em_ok (length (vertices mesh)) (length (faces mesh)) em"
    and fid: "fid < length (faces mesh)"
  shows "\<exists>em'. reinsert N fid mesh em = Some (mesh, em') \<and>
           em_ok (length (vertices mesh)) (length (faces mesh)) em' \<and> heap em' \<noteq> []"
proof -
  from addFaceEdges_ok [OF ok fid mesh_ok_nth [OF m fid], of N]
  obtain em1 where 1: "addFaceEdges N mesh fid em = Some em1"
    "em_ok (length (vertices mesh)) (length (faces mesh)) em1" by blast
  from fid have last: "length (faces mesh) - 1 < length (faces mesh)" by simp
  from addFaceEdges_ok [OF 1(2) last mesh_ok_nth [OF m last], of N]
  obtain em2 where 2: "addFaceEdges N mesh (length (faces mesh) - 1) em1 = Some em2"
    "em_ok (length (vertices mesh)) (length (faces mesh)) em2" "heap em2 \<noteq> []" by blast
  from 1 2 show ?thesis by (simp add: reinsert_def)
qed

lemma pushMiddle_ok:
  assumes m: "mesh_ok mesh" and ij: "tCoords mesh = [] \<or> (i < length (tCoords mesh) \<and> j < length (tCoords mesh))"
  shows "\<exists>m1. pushMiddle N i j mesh = Some m1 \<and> faces m1 = faces mesh \<and>
           vertices m1 = vertices mesh \<and> length (tCoords mesh) \<le> length (tCoords m1) \<and>
           (tCoords mesh = [] \<longrightarrow> tCoords m1 = []) \<and>
           (tCoords m1 = [] \<or> size_minus_1 (length (tCoords m1)) < length (tCoords m1))"
  using ij by (auto simp: pushMiddle_def size_minus_1_def)

text \<open>The mesh after a split: the face \<open>fid\<close> replaced by \<open>u\<close>, the face \<open>n\<close> appended.\<close>

lemma split_mesh_ok:
  assumes m: "mesh_ok mesh" and ok: "em_ok (length (vertices mesh)) (length (faces mesh)) em"
    and fid: "fid < length (faces mesh)"
    and m1: "faces m1 = faces mesh" "vertices m1 = vertices mesh"
      "length (tCoords mesh) \<le> length (tCoords m1)" "tCoords mesh = [] \<longrightarrow> tCoords m1 = []"
    and n: "face_ok (length (vertices mesh)) (length (tCoords m1)) n"
    and u: "face_ok (length (vertices mesh)) (length (tCoords m1)) u"
  shows "\<exists>em'. reinsert N fid (m1\<lparr>faces := (faces m1 @ [n])[fid := u]\<rparr>) em =
                  Some (m1\<lparr>faces := (faces m1 @ [n])[fid := u]\<rparr>, em') \<and>
           mesh_ok (m1\<lparr>faces := (faces m1 @ [n])[fid := u]\<rparr>) \<and>
           em_ok (length (vertices mesh)) (Suc (length (faces mesh))) em' \<and> heap em' \<noteq> []"
proof -
  let ?m3 = "m1\<lparr>faces := (faces m1 @ [n])[fid := u]\<rparr>"
  have "list_all (face_ok (length (vertices mesh)) (length (tCoords m1))) (faces mesh)"
    using m m1(3,4) unfolding mesh_ok_def list_all_iff
    by (auto intro: face_ok_mono)
  then have m3: "mesh_ok ?m3"
    using n u by (simp add: mesh_ok_def m1 list_all_snoc_update)
  have ok3: "em_ok (length (vertices ?m3)) (length (faces ?m3)) em"
    using ok by (auto simp: m1 intro: em_ok_mono)
  have fid3: "fid < length (faces ?m3)" using fid by (simp add: m1)
  from reinsert_ok [OF m3 ok3 fid3, of N] m3 show ?thesis by (simp add: m1)
qed

lemma splitEdge_ok:
  assumes m: "mesh_ok mesh" and ok: "em_ok (length (vertices mesh)) (length (faces mesh)) em"
    and fid: "fid < length (faces mesh)" and vid: "vid < length (vertices mesh)"
  shows "\<exists>mesh' em'. splitEdge N fid type vid (mesh, em) = Some (mesh', em') \<and> mesh_ok mesh' \<and>
           em_ok (length (vertices mesh)) (Suc (length (faces mesh))) em' \<and> heap em' \<noteq> [] \<and>
           vertices mesh' = vertices mesh \<and> length (faces mesh') = Suc (length (faces mesh))"
proof -
  let ?f = "faces mesh ! fid"
  let ?nv = "length (vertices mesh)"
  have f: "face_ok ?nv (length (tCoords mesh)) ?f" by (rule mesh_ok_nth [OF m fid])
  have tex: "tCoords mesh = [] \<or> (i < length (tCoords mesh) \<and> j < length (tCoords mesh))"
    if "i \<in> {ta ?f, tb ?f, tc ?f}" "j \<in> {ta ?f, tb ?f, tc ?f}" for i j
    using f that by (auto simp: face_ok_def)
  show ?thesis
  proof (cases type)
    case AB
    from pushMiddle_ok [OF m tex, of "ta ?f" "tb ?f" N]
    obtain m1 where pm: "pushMiddle N (ta ?f) (tb ?f) mesh = Some m1"
      and m1: "faces m1 = faces mesh" "vertices m1 = vertices mesh"
        "length (tCoords mesh) \<le> length (tCoords m1)" "tCoords mesh = [] \<longrightarrow> tCoords m1 = []"
      and tn: "tCoords m1 = [] \<or> size_minus_1 (length (tCoords m1)) < length (tCoords m1)"
      by auto
    let ?tn = "size_minus_1 (length (tCoords m1))"
    have f1: "face_ok ?nv (length (tCoords m1)) ?f"
      using f m1(3,4) by (auto intro: face_ok_mono)
    have n: "face_ok ?nv (length (tCoords m1)) (Face6 (b ?f) (c ?f) vid (tb ?f) (tc ?f) ?tn)"
      using f1 vid tn by (auto simp: face_ok_def Face6_def)
    have u: "face_ok ?nv (length (tCoords m1)) (?f\<lparr>b := vid, tb := ?tn\<rparr>)"
      using f1 vid tn by (auto simp: face_ok_def)
    from split_mesh_ok [OF m ok fid m1 n u, of N] fid
    show ?thesis
      by (auto simp: splitEdge_def AB pm Let_def addFace_def m1 nth_append)
  next
    case BC
    from pushMiddle_ok [OF m tex, of "tb ?f" "tc ?f" N]
    obtain m1 where pm: "pushMiddle N (tb ?f) (tc ?f) mesh = Some m1"
      and m1: "faces m1 = faces mesh" "vertices m1 = vertices mesh"
        "length (tCoords mesh) \<le> length (tCoords m1)" "tCoords mesh = [] \<longrightarrow> tCoords m1 = []"
      and tn: "tCoords m1 = [] \<or> size_minus_1 (length (tCoords m1)) < length (tCoords m1)"
      by auto
    let ?tn = "size_minus_1 (length (tCoords m1))"
    have f1: "face_ok ?nv (length (tCoords m1)) ?f"
      using f m1(3,4) by (auto intro: face_ok_mono)
    have n: "face_ok ?nv (length (tCoords m1)) (Face6 (c ?f) (a ?f) vid (tc ?f) (ta ?f) ?tn)"
      using f1 vid tn by (auto simp: face_ok_def Face6_def)
    have u: "face_ok ?nv (length (tCoords m1)) (?f\<lparr>c := vid, tc := ?tn\<rparr>)"
      using f1 vid tn by (auto simp: face_ok_def)
    from split_mesh_ok [OF m ok fid m1 n u, of N] fid
    show ?thesis
      by (auto simp: splitEdge_def BC pm Let_def addFace_def m1 nth_append)
  next
    case CA
    from pushMiddle_ok [OF m tex, of "tc ?f" "ta ?f" N]
    obtain m1 where pm: "pushMiddle N (tc ?f) (ta ?f) mesh = Some m1"
      and m1: "faces m1 = faces mesh" "vertices m1 = vertices mesh"
        "length (tCoords mesh) \<le> length (tCoords m1)" "tCoords mesh = [] \<longrightarrow> tCoords m1 = []"
      and tn: "tCoords m1 = [] \<or> size_minus_1 (length (tCoords m1)) < length (tCoords m1)"
      by auto
    let ?tn = "size_minus_1 (length (tCoords m1))"
    have f1: "face_ok ?nv (length (tCoords m1)) ?f"
      using f m1(3,4) by (auto intro: face_ok_mono)
    have n: "face_ok ?nv (length (tCoords m1)) (Face6 (a ?f) (b ?f) vid (ta ?f) (tb ?f) ?tn)"
      using f1 vid tn by (auto simp: face_ok_def Face6_def)
    have u: "face_ok ?nv (length (tCoords m1)) (?f\<lparr>a := vid, ta := ?tn\<rparr>)"
      using f1 vid tn by (auto simp: face_ok_def)
    from split_mesh_ok [OF m ok fid m1 n u, of N] fid
    show ?thesis
      by (auto simp: splitEdge_def CA pm Let_def addFace_def m1 nth_append)
  qed
qed


lemma splitSlot_ok:
  assumes m: "mesh_ok mesh" and ok: "em_ok (length (vertices mesh)) (length (faces mesh)) em"
    and slot: "slot_ok (length (faces mesh)) f et" and v: "vertices mesh \<noteq> []"
  shows "\<exists>mesh' em'. splitSlot N f et (mesh, em) = Some (mesh', em') \<and> mesh_ok mesh' \<and>
           em_ok (length (vertices mesh)) (length (faces mesh')) em' \<and>
           vertices mesh' = vertices mesh \<and>
           (if 0 \<le> f then length (faces mesh') = Suc (length (faces mesh)) \<and> heap em' \<noteq> []
            else mesh' = mesh \<and> em' = em)"
proof (cases "0 \<le> f")
  case True
  with slot obtain type where et: "et = Some type" and f: "nat f < length (faces mesh)"
    by (auto simp: slot_ok_def)
  from v have vid: "length (vertices mesh) - 1 < length (vertices mesh)" by simp
  from splitEdge_ok [OF m ok f vid, of N type] True show ?thesis
    by (auto simp: splitSlot_def et)
next
  case False
  with m ok show ?thesis by (simp add: splitSlot_def)
qed

lemma refine_step_ok:
  assumes st: "state_ok st" and ne: "heap (snd st) \<noteq> []"
  shows "\<exists>st'. refine_step N st = Some st' \<and> state_ok st' \<and>
           length (vertices (fst st')) = Suc (length (vertices (fst st))) \<and>
           length (faces (fst st)) < length (faces (fst st')) \<and>
           length (faces (fst st')) \<le> length (faces (fst st)) + 2"
proof -
  obtain mesh em where s: "st = (mesh, em)" by (cases st)
  let ?nv = "length (vertices mesh)" and ?nf = "length (faces mesh)"
  from st have m: "mesh_ok mesh" and ok: "em_ok ?nv ?nf em" by (simp_all add: s state_ok_def)
  obtain edge em1 where pop: "pop_top_edge N em = (edge, em1)" by (cases "pop_top_edge N em")
  from ne have "heap em \<noteq> []" by (simp add: s)
  from pop_top_edge_ok [OF ok this pop] have e: "edge_ok ?nv ?nf edge" and ok1: "em_ok ?nv ?nf em1"
    by auto
  define mesh1 where "mesh1 = mesh\<lparr>vertices := vertices mesh @
    [middle3 N (vertices mesh ! nat (v1 edge)) (vertices mesh ! nat (v2 edge))]\<rparr>"
  have m1: "mesh_ok mesh1"
    using m unfolding mesh_ok_def mesh1_def list_all_iff by (auto intro: face_ok_mono)
  have ok1': "em_ok (length (vertices mesh1)) (length (faces mesh1)) em1"
    using ok1 by (auto simp: mesh1_def intro: em_ok_mono)
  have v1: "vertices mesh1 \<noteq> []" by (simp add: mesh1_def)
  from e have s1: "slot_ok (length (faces mesh1)) (f1 edge) (et1 edge)"
    by (simp add: edge_ok_def mesh1_def)
  from splitSlot_ok [OF m1 ok1' s1 v1, of N]
  obtain mesh2 em2 where r1: "splitSlot N (f1 edge) (et1 edge) (mesh1, em1) = Some (mesh2, em2)"
    and m2: "mesh_ok mesh2" and ok2: "em_ok (length (vertices mesh1)) (length (faces mesh2)) em2"
    and v2: "vertices mesh2 = vertices mesh1"
    and c1: "if 0 \<le> f1 edge then length (faces mesh2) = Suc (length (faces mesh1)) \<and> heap em2 \<noteq> []
             else mesh2 = mesh1 \<and> em2 = em1"
    by blast
  have nf2: "length (faces mesh1) \<le> length (faces mesh2)"
    using c1 by (auto split: if_splits)
  from e have s2: "slot_ok (length (faces mesh2)) (f2 edge) (et2 edge)"
    using nf2 by (auto simp: edge_ok_def mesh1_def intro: slot_ok_mono)
  have ok2': "em_ok (length (vertices mesh2)) (length (faces mesh2)) em2"
    using ok2 by (simp add: v2)
  have v2': "vertices mesh2 \<noteq> []" by (simp add: v2 v1)
  from splitSlot_ok [OF m2 ok2' s2 v2', of N]
  obtain mesh3 em3 where r2: "splitSlot N (f2 edge) (et2 edge) (mesh2, em2) = Some (mesh3, em3)"
    and m3: "mesh_ok mesh3" and ok3: "em_ok (length (vertices mesh2)) (length (faces mesh3)) em3"
    and v3: "vertices mesh3 = vertices mesh2"
    and c2: "if 0 \<le> f2 edge then length (faces mesh3) = Suc (length (faces mesh2)) \<and> heap em3 \<noteq> []
             else mesh3 = mesh2 \<and> em3 = em2"
    by blast
  from e have some: "0 \<le> f1 edge \<or> 0 \<le> f2 edge" by (simp add: edge_ok_def)
  from e have inr: "0 \<le> v1 edge \<and> nat (v1 edge) < ?nv \<and> 0 \<le> v2 edge \<and> nat (v2 edge) < ?nv"
    by (auto simp: edge_ok_def)
  have res: "refine_step N st = Some (mesh3, em3)"
    using inr r1 r2 by (simp add: refine_step_def s pop Let_def mesh1_def)
  have heap3: "heap em3 \<noteq> []"
    using c1 c2 some by (auto split: if_splits)
  have nf3: "?nf < length (faces mesh3)" "length (faces mesh3) \<le> ?nf + 2"
    using c1 c2 some by (auto simp: mesh1_def split: if_splits)
  have "state_ok (mesh3, em3)"
    using m3 ok3 heap3 by (simp add: state_ok_def v3)
  with res nf3 show ?thesis by (simp add: s v3 v2 mesh1_def)
qed

lemma refine_loop_ok:
  assumes "state_ok st"
  shows "\<exists>st'. refine_loop N maxFacesCount st = Some st' \<and> state_ok st' \<and>
           (maxFacesCount \<le> length (faces (fst st')) \<or> heap (snd st') = []) \<and>
           length (vertices (fst st')) = length (vertices (fst st)) + splitSteps N maxFacesCount st \<and>
           length (faces (fst st)) + splitSteps N maxFacesCount st \<le> length (faces (fst st')) \<and>
           length (faces (fst st')) \<le> length (faces (fst st)) + 2 * splitSteps N maxFacesCount st"
  using assms
proof (induction N maxFacesCount st rule: refine_loop.induct)
  case (1 N maxFacesCount st)
  show ?case
  proof (cases "length (faces (fst st)) < maxFacesCount \<and> length (heap (snd st)) > 0")
    case True
    then have "heap (snd st) \<noteq> []" by simp
    from refine_step_ok [OF "1.prems" this, of N]
    obtain st1 where step: "refine_step N st = Some st1" and ok1: "state_ok st1"
      and v: "length (vertices (fst st1)) = Suc (length (vertices (fst st)))"
      and f: "length (faces (fst st)) < length (faces (fst st1))"
        "length (faces (fst st1)) \<le> length (faces (fst st)) + 2"
      by blast
    from "1.IH" [OF True step ok1]
    obtain st' where loop: "refine_loop N maxFacesCount st1 = Some st'" and ok': "state_ok st'"
      and exit: "maxFacesCount \<le> length (faces (fst st')) \<or> heap (snd st') = []"
      and v': "length (vertices (fst st')) = length (vertices (fst st1)) + splitSteps N maxFacesCount st1"
      and f': "length (faces (fst st1)) + splitSteps N maxFacesCount st1 \<le> length (faces (fst st'))"
        "length (faces (fst st')) \<le> length (faces (fst st1)) + 2 * splitSteps N maxFacesCount st1"
      by blast
    have l: "refine_loop N maxFacesCount st = Some st'"
      using True step loop by (subst refine_loop.simps) simp
    have n: "splitSteps N maxFacesCount st = Suc (splitSteps N maxFacesCount st1)"
      using True step by (subst splitSteps.simps) simp
    from l n ok' exit v v' f f' show ?thesis by simp
  next
    case False
    have l: "refine_loop N maxFacesCount st = Some st"
      using False by (subst refine_loop.simps) auto
    have n: "splitSteps N maxFacesCount st = 0"
      using False by (subst splitSteps.simps) auto
    from False have "maxFacesCount \<le> length (faces (fst st)) \<or> heap (snd st) = []" by auto
    with l n "1.prems" show ?thesis by simp
  qed
qed

text \<open>
  The loop body runs only from a state with fewer than \<open>maxFacesCount\<close> faces, and a run
  adds at most two faces: the loop does not pass the target by more than one face, and
  it returns its initial state when the guard fails at once.
\<close>

lemma refine_loop_bound:
  assumes "state_ok st" "refine_loop N maxFacesCount st = Some st'"
  shows "length (faces (fst st')) \<le> max (length (faces (fst st))) (maxFacesCount + 1) \<and>
         (maxFacesCount \<le> length (faces (fst st)) \<or> heap (snd st) = [] \<longrightarrow> st' = st)"
  using assms
proof (induction N maxFacesCount st rule: refine_loop.induct)
  case (1 N maxFacesCount st)
  show ?case
  proof (cases "length (faces (fst st)) < maxFacesCount \<and> length (heap (snd st)) > 0")
    case True
    then have "heap (snd st) \<noteq> []" by simp
    from refine_step_ok [OF "1.prems"(1) this, of N]
    obtain st1 where step: "refine_step N st = Some st1" and ok1: "state_ok st1"
      and f: "length (faces (fst st1)) \<le> length (faces (fst st)) + 2"
      by blast
    have loop: "refine_loop N maxFacesCount st1 = Some st'"
      using "1.prems"(2) True step by (subst (asm) refine_loop.simps) simp
    from "1.IH" [OF True step ok1 loop]
    have "length (faces (fst st')) \<le> max (length (faces (fst st1))) (maxFacesCount + 1)"
      by blast
    with f True show ?thesis by auto
  next
    case False
    have "st' = st"
      using "1.prems"(2) False by (subst (asm) refine_loop.simps) auto
    then show ?thesis by simp
  qed
qed

lemma addAllFaceEdges_ok:
  assumes "mesh_ok mesh" "em_ok (length (vertices mesh)) (length (faces mesh)) em"
    and "\<forall>i \<in> set idxs. i < length (faces mesh)"
  shows "\<exists>em'. addAllFaceEdges N mesh idxs em = Some em' \<and>
           em_ok (length (vertices mesh)) (length (faces mesh)) em' \<and>
           (idxs = [] \<or> heap em' \<noteq> [])"
  using assms
proof (induction idxs arbitrary: em)
  case Nil
  then show ?case by simp
next
  case (Cons i rest)
  from Cons.prems have i: "i < length (faces mesh)" by simp
  from addFaceEdges_ok [OF Cons.prems(2) i mesh_ok_nth [OF Cons.prems(1) i], of N]
  obtain em1 where 1: "addFaceEdges N mesh i em = Some em1"
    "em_ok (length (vertices mesh)) (length (faces mesh)) em1" "heap em1 \<noteq> []" by blast
  from Cons.IH [OF Cons.prems(1) 1(2)] Cons.prems(3)
  obtain em' where 2: "addAllFaceEdges N mesh rest em1 = Some em'"
    "em_ok (length (vertices mesh)) (length (faces mesh)) em'" "rest = [] \<or> heap em' \<noteq> []"
    by auto
  show ?case
  proof (cases rest)
    case Nil
    with 1 show ?thesis by simp
  next
    case (Cons j more)
    with 1 2 show ?thesis by simp
  qed
qed

lemma em_ok_empty: "em_ok nv nf \<lparr>store = [], emap = Map.empty, heap = []\<rparr>"
  by (simp add: em_ok_def)

lemma refine_run_ok:
  assumes "mesh_ok omesh"
  shows "\<exists>pmesh em. refine_run N omesh maxFacesCount = Some (pmesh, em) \<and> state_ok (pmesh, em) \<and>
           (maxFacesCount \<le> length (faces pmesh) \<or> heap em = []) \<and>
           length (vertices pmesh) = length (vertices omesh) + refine_steps N omesh maxFacesCount \<and>
           length (faces omesh) + refine_steps N omesh maxFacesCount \<le> length (faces pmesh) \<and>
           length (faces pmesh) \<le> length (faces omesh) + 2 * refine_steps N omesh maxFacesCount"
proof -
  from addAllFaceEdges_ok [OF assms em_ok_empty, of "[0..<length (faces omesh)]" N]
  obtain em0 where init: "addAllFaceEdges N omesh [0..<length (faces omesh)]
        \<lparr>store = [], emap = Map.empty, heap = []\<rparr> = Some em0"
    and ok0: "em_ok (length (vertices omesh)) (length (faces omesh)) em0"
    and h0: "[0..<length (faces omesh)] = [] \<or> heap em0 \<noteq> []"
    by auto
  have "state_ok (omesh, em0)"
    using assms ok0 h0 by (auto simp: state_ok_def)
  from refine_loop_ok [OF this, of N maxFacesCount] show ?thesis
    by (auto simp: refine_run_def refine_steps_def init)
qed


lemma refine_run_bound:
  assumes "mesh_ok omesh" "refine_run N omesh maxFacesCount = Some (pmesh, em)"
  shows "length (faces pmesh) \<le> max (length (faces omesh)) (maxFacesCount + 1) \<and>
         (maxFacesCount \<le> length (faces omesh) \<or> faces omesh = [] \<longrightarrow> pmesh = omesh)"
proof -
  from addAllFaceEdges_ok [OF assms(1) em_ok_empty, of "[0..<length (faces omesh)]" N]
  obtain em0 where init: "addAllFaceEdges N omesh [0..<length (faces omesh)]
        \<lparr>store = [], emap = Map.empty, heap = []\<rparr> = Some em0"
    and ok0: "em_ok (length (vertices omesh)) (length (faces omesh)) em0"
    and h0: "[0..<length (faces omesh)] = [] \<or> heap em0 \<noteq> []"
    by auto
  have ok: "state_ok (omesh, em0)"
    using assms(1) ok0 h0 by (auto simp: state_ok_def)
  have empty: "heap em0 = []" if "faces omesh = []"
    using init that by auto
  from assms(2) have "refine_loop N maxFacesCount (omesh, em0) = Some (pmesh, em)"
    by (simp add: refine_run_def init)
  from refine_loop_bound [OF ok this] empty show ?thesis by auto
qed

lemma refine_Some:
  "refine_run N omesh maxFacesCount = Some (pmesh, em) \<Longrightarrow> refine N omesh maxFacesCount = Some pmesh"
  by (simp add: refine_def)

lemma less_sqrt_iff: "0 \<le> x \<Longrightarrow> x < sqrt y \<longleftrightarrow> x * x < y"
  by (metis abs_of_nonneg real_sqrt_abs2 real_sqrt_less_iff)

lemma sqrt_less_iff: "0 \<le> y \<Longrightarrow> sqrt x < y \<longleftrightarrow> x < y * y"
  by (metis abs_of_nonneg real_sqrt_abs2 real_sqrt_less_iff)

lemma refine_example: "refine real_numerics textured_triangle 2 = Some split_triangle"
  by (simp add: refine_def refine_run_def addFaceEdges_def addFaceEdge_def Edge_addFace_def
      Edge_def EdgeKey_def push_heap_def push_heap_aux.simps pop_heap_def adjust_heap_def
      adjust_down.simps compareEdgePtr_def refine_step_def pop_top_edge_def splitSlot_def
      splitEdge_def pushMiddle_def reinsert_def addFace_def size_minus_1_def Face6_def Let_def
      real_numerics_def less_sqrt_iff sqrt_less_iff refine_loop.simps textured_triangle_def
      split_triangle_def upt_rec
      cong: let_weak_cong option.case_cong_weak prod.case_cong_weak EdgeType.case_cong_weak)

lemma mesh_ok_textured_triangle: "mesh_ok textured_triangle"
  by (simp add: mesh_ok_def textured_triangle_def face_ok_def Face6_def)

lemma face_ok_reindexed: "face_ok nv nt (reindexed face) = face_ok nv nt face"
  by (simp add: face_ok_def reindexed_def Face6_def)

lemma mesh_ok_removeNonManifoldEdges:
  assumes "mesh_ok m"
  shows "mesh_ok (removeNonManifoldEdges m)"
proof -
  have v: "vertices (removeNonManifoldEdges m) = vertices m"
    and t: "tCoords (removeNonManifoldEdges m) = tCoords m"
    by (simp_all add: removeNonManifoldEdges_def Let_def keepFaces_eq)
  from assms show ?thesis
    unfolding mesh_ok_def v t rnme_faces
    by (auto simp: list_all_iff face_ok_reindexed)
qed

text \<open>
  C8: on a mesh that satisfies the index invariant \<open>refine\<close> terminates and returns a
  mesh (the loop is a total function, and no read leaves an array). When the loop ends
  the face count has reached \<open>maxFacesCount\<close> or the heap is empty, and the face count
  stays below \<open>maxFacesCount\<close> only if the input mesh has no face. The loop ends as
  soon as the count is reached: the result has at most \<open>maxFacesCount + 1\<close> faces (the
  last split may add two) unless the input has more, and it is the input mesh itself
  when the input has \<open>maxFacesCount\<close> faces or more, or no face.
\<close>

theorem refine_terminates:
  assumes "mesh_ok omesh"
  shows "\<exists>pmesh em. refine_run N omesh maxFacesCount = Some (pmesh, em) \<and>
           refine N omesh maxFacesCount = Some pmesh \<and>
           (maxFacesCount \<le> length (faces pmesh) \<or> heap em = []) \<and>
           (length (faces pmesh) < maxFacesCount \<longrightarrow> faces omesh = []) \<and>
           length (faces pmesh) \<le> max (length (faces omesh)) (maxFacesCount + 1) \<and>
           (maxFacesCount \<le> length (faces omesh) \<or> faces omesh = [] \<longrightarrow> pmesh = omesh)"
proof -
  from refine_run_ok [OF assms, of N maxFacesCount]
  obtain pmesh em where run: "refine_run N omesh maxFacesCount = Some (pmesh, em)"
    and ok: "state_ok (pmesh, em)"
    and exit: "maxFacesCount \<le> length (faces pmesh) \<or> heap em = []"
    and grow: "length (faces omesh) + refine_steps N omesh maxFacesCount \<le> length (faces pmesh)"
    by blast
  have "faces omesh = []" if "length (faces pmesh) < maxFacesCount"
  proof -
    from that exit have "heap em = []" by simp
    with ok have "faces pmesh = []" by (simp add: state_ok_def)
    with grow show ?thesis by simp
  qed
  with run exit refine_Some [OF run] refine_run_bound [OF assms run] show ?thesis by blast
qed

text \<open>
  The textured triangle: with the target 2 it is split once, and with the target 1,
  which it meets, it is returned as it is. The mesh without faces is returned as it
  is, below the target.
\<close>

theorem refine_terminates_witness:
  "mesh_ok textured_triangle \<and> mesh_ok no_faces \<and>
   (\<exists>pmesh em. refine_run real_numerics textured_triangle 2 = Some (pmesh, em) \<and>
      refine real_numerics textured_triangle 2 = Some pmesh \<and>
      (2 \<le> length (faces pmesh) \<or> heap em = []) \<and>
      length (faces pmesh) \<le> max (length (faces textured_triangle)) (2 + 1)) \<and>
   refine real_numerics textured_triangle 1 = Some textured_triangle \<and>
   refine real_numerics no_faces 2 = Some no_faces \<and> length (faces no_faces) < 2"
proof -
  have one: "1 \<le> length (faces textured_triangle)"
    by (simp add: textured_triangle_def)
  have none: "mesh_ok no_faces" "faces no_faces = []"
    by (simp_all add: mesh_ok_def no_faces_def)
  from refine_terminates [OF mesh_ok_textured_triangle, of real_numerics 2]
  have "\<exists>pmesh em. refine_run real_numerics textured_triangle 2 = Some (pmesh, em) \<and>
      refine real_numerics textured_triangle 2 = Some pmesh \<and>
      (2 \<le> length (faces pmesh) \<or> heap em = []) \<and>
      length (faces pmesh) \<le> max (length (faces textured_triangle)) (2 + 1)"
    by blast
  moreover from refine_terminates [OF mesh_ok_textured_triangle, of real_numerics 1] one
  have "refine real_numerics textured_triangle 1 = Some textured_triangle"
    by auto
  moreover from refine_terminates [OF none(1), of real_numerics 2] none(2)
  have "refine real_numerics no_faces 2 = Some no_faces"
    by auto
  ultimately show ?thesis using mesh_ok_textured_triangle none by simp
qed

text \<open>
  C4: on a mesh that satisfies the index invariant \<open>refine\<close> returns a mesh with at
  least \<open>min maxFacesCount (faces.size())\<close> faces, and with exactly one more vertex for
  every split step of the run. Every split step adds one or two faces.
\<close>

theorem refine_growth:
  assumes "mesh_ok omesh"
  shows "\<exists>pmesh. refine N omesh maxFacesCount = Some pmesh \<and>
           min maxFacesCount (length (faces omesh)) \<le> length (faces pmesh) \<and>
           length (vertices pmesh) = length (vertices omesh) + refine_steps N omesh maxFacesCount \<and>
           length (faces omesh) + refine_steps N omesh maxFacesCount \<le> length (faces pmesh) \<and>
           length (faces pmesh) \<le> length (faces omesh) + 2 * refine_steps N omesh maxFacesCount"
proof -
  from refine_run_ok [OF assms, of N maxFacesCount]
  obtain pmesh em where run: "refine_run N omesh maxFacesCount = Some (pmesh, em)"
    and v: "length (vertices pmesh) = length (vertices omesh) + refine_steps N omesh maxFacesCount"
    and f: "length (faces omesh) + refine_steps N omesh maxFacesCount \<le> length (faces pmesh)"
      "length (faces pmesh) \<le> length (faces omesh) + 2 * refine_steps N omesh maxFacesCount"
    by blast
  from f(1) have "min maxFacesCount (length (faces omesh)) \<le> length (faces pmesh)" by simp
  with refine_Some [OF run] v f show ?thesis by blast
qed

theorem refine_growth_witness:
  "mesh_ok textured_triangle \<and> faces textured_triangle \<noteq> [] \<and>
   refine real_numerics textured_triangle 2 = Some split_triangle \<and>
   min 2 (length (faces textured_triangle)) \<le> length (faces split_triangle) \<and>
   refine_steps real_numerics textured_triangle 2 = 1 \<and>
   length (vertices split_triangle) = length (vertices textured_triangle) + 1"
proof -
  from refine_growth [OF mesh_ok_textured_triangle, of real_numerics 2]
  have "min 2 (length (faces textured_triangle)) \<le> length (faces split_triangle) \<and>
        length (vertices split_triangle) =
          length (vertices textured_triangle) + refine_steps real_numerics textured_triangle 2"
    by (auto simp: refine_example)
  moreover have "length (vertices split_triangle) = 4" "length (vertices textured_triangle) = 3"
    "faces textured_triangle \<noteq> []"
    by (simp_all add: split_triangle_def textured_triangle_def)
  ultimately show ?thesis
    using mesh_ok_textured_triangle refine_example by simp
qed

text \<open>
  C10: \<open>clip\<close>, \<open>removeNonManifoldEdges\<close> and \<open>refine\<close> return a mesh that satisfies the
  index invariant when their input does.
\<close>

theorem operations_preserve_mesh_ok:
  assumes "mesh_ok omesh"
  shows "(\<exists>pmesh. clip clipTriangles omesh extents = Some pmesh \<and> mesh_ok pmesh) \<and>
         mesh_ok (removeNonManifoldEdges omesh) \<and>
         (\<exists>pmesh. refine N omesh maxFacesCount = Some pmesh \<and> mesh_ok pmesh)"
proof -
  from refine_run_ok [OF assms, of N maxFacesCount]
  obtain pmesh em where run: "refine_run N omesh maxFacesCount = Some (pmesh, em)"
    and ok: "state_ok (pmesh, em)" by blast
  then have "refine N omesh maxFacesCount = Some pmesh \<and> mesh_ok pmesh"
    by (simp add: refine_Some state_ok_def)
  with clip_preserves_mesh_ok [OF assms, of clipTriangles extents]
    mesh_ok_removeNonManifoldEdges [OF assms]
  show ?thesis by blast
qed

theorem operations_preserve_mesh_ok_witness:
  "mesh_ok textured_triangle \<and>
   clip clipTriangles_spec textured_triangle unit_box = Some cut_mesh \<and> mesh_ok cut_mesh \<and>
   mesh_ok (removeNonManifoldEdges textured_triangle) \<and>
   refine real_numerics textured_triangle 2 = Some split_triangle \<and> mesh_ok split_triangle"
  using operations_preserve_mesh_ok [OF mesh_ok_textured_triangle,
      of clipTriangles_spec unit_box real_numerics 2]
    mesh_ok_textured_triangle clip_example refine_example
  by auto

subsection \<open>Re-linking after a split\<close>

text \<open>
  Two calls of \<^verbatim>\<open>addFaceEdge\<close> write the same slot exactly when they pass the same
  endpoints in the same order. So after a list of calls the slot of each of them holds
  what the last call with these endpoints wrote, and the other slots are unchanged.
\<close>

lemma slot_identity:
  "EdgeKey p q = EdgeKey p' q' \<Longrightarrow> (p < q) = (p' < q') \<Longrightarrow> (p, q) = (p', q')"
  by (auto simp: EdgeKey_def min_def max_def split: if_splits)

lemma em_ok_index: "em_ok nv nf em \<Longrightarrow> emap em k = Some r \<Longrightarrow> r < length (store em)"
  using em_okD1 em_okD2 by blast

lemma em_ok_inj:
  "em_ok nv nf em \<Longrightarrow> emap em k = Some r \<Longrightarrow> emap em k' = Some r \<Longrightarrow> k = k'"
  using em_okD2 by blast

lemma slot_of_addFaceEdge_same:
  assumes "em_ok nv nf em"
  shows "slot_of (addFaceEdge N p q fid type len em) (p, q) = Some (fid, Some type)"
proof (cases "emap em (EdgeKey p q)")
  case None
  then show ?thesis
    by (simp add: slot_of_def addFaceEdge_def Let_def Edge_addFace_def Edge_def)
next
  case (Some it)
  with em_ok_index [OF assms Some] show ?thesis
    by (simp add: slot_of_def addFaceEdge_def Edge_addFace_def)
qed

lemma slot_of_addFaceEdge_other:
  assumes ok: "em_ok nv nf em" and ne: "pq \<noteq> (p, q)" and old: "slot_of em pq = Some x"
  shows "slot_of (addFaceEdge N p q fid type len em) pq = Some x"
proof -
  obtain p' q' where pq: "pq = (p', q')" by (cases pq)
  from old obtain r where r: "emap em (EdgeKey p' q') = Some r"
    by (auto simp: slot_of_def pq split: option.splits)
  from em_ok_index [OF ok r] have rl: "r < length (store em)" .
  show ?thesis
  proof (cases "emap em (EdgeKey p q)")
    case None
    with r have "EdgeKey p' q' \<noteq> EdgeKey p q" by auto
    with r rl old None show ?thesis
      by (auto simp: slot_of_def addFaceEdge_def Let_def pq nth_append)
  next
    case (Some it)
    show ?thesis
    proof (cases "it = r")
      case True
      with Some r ok have k: "EdgeKey p q = EdgeKey p' q'" by (metis em_ok_inj)
      with ne pq slot_identity [of p q p' q'] have d: "(p < q) \<noteq> (p' < q')" by auto
      from r rl old Some True k d show ?thesis
        by (auto simp: slot_of_def addFaceEdge_def pq Edge_addFace_def)
    next
      case False
      with r rl old Some show ?thesis
        by (auto simp: slot_of_def addFaceEdge_def pq)
    qed
  qed
qed


lemma register_snoc:
  "register N (regs @ [(pq, fid, type, len)]) em =
     addFaceEdge N (fst pq) (snd pq) fid type len (register N regs em)"
  by (simp add: register_def)

lemma register_ok:
  "em_ok nv nf em \<Longrightarrow> \<forall>reg \<in> set regs. reg_ok nv nf reg \<Longrightarrow> em_ok nv nf (register N regs em)"
proof (induction regs rule: rev_induct)
  case Nil
  then show ?case by (simp add: register_def)
next
  case (snoc reg regs)
  obtain pq fid type len where reg: "reg = (pq, fid, type, len)" by (cases reg)
  from snoc have ok: "em_ok nv nf (register N regs em)" and r: "reg_ok nv nf reg" by simp_all
  from r addFaceEdge_ok [OF ok, of "fst pq" "snd pq" fid N type len]
  show ?case by (simp add: reg register_snoc reg_ok_def)
qed

lemma register_last_writer:
  assumes "em_ok nv nf em" "\<forall>reg \<in> set regs. reg_ok nv nf reg" "reg \<in> set regs"
  shows "\<exists>pq fid type len. (pq, fid, type, len) \<in> set regs \<and> pq = fst reg \<and>
           slot_of (register N regs em) (fst reg) = Some (fid, Some type)"
  using assms
proof (induction regs rule: rev_induct)
  case Nil
  then show ?case by simp
next
  case (snoc x regs)
  obtain pq fid type len where x: "x = (pq, fid, type, len)" by (cases x)
  from snoc.prems have ok: "em_ok nv nf (register N regs em)"
    by (intro register_ok) simp_all
  show ?case
  proof (cases "pq = fst reg")
    case True
    from slot_of_addFaceEdge_same [OF ok, of N "fst pq" "snd pq" fid type len] True
    have "slot_of (register N (regs @ [x]) em) (fst reg) = Some (fid, Some type)"
      by (simp add: x register_snoc)
    moreover have "(pq, fid, type, len) \<in> set (regs @ [x])" by (simp add: x)
    ultimately show ?thesis using True by blast
  next
    case False
    with snoc.prems(3) have "reg \<in> set regs" by (auto simp: x)
    from snoc.IH [OF snoc.prems(1) _ this] snoc.prems(2)
    obtain pq' fid' type' len' where w: "(pq', fid', type', len') \<in> set regs" "pq' = fst reg"
      "slot_of (register N regs em) (fst reg) = Some (fid', Some type')" by auto
    from False have "fst reg \<noteq> (fst pq, snd pq)" by auto
    from slot_of_addFaceEdge_other [OF ok this w(3), of N fid type len]
    have "slot_of (register N (regs @ [x]) em) (fst reg) = Some (fid', Some type')"
      by (simp add: x register_snoc)
    moreover from w(1) have "(pq', fid', type', len') \<in> set (regs @ [x])" by simp
    ultimately show ?thesis using w(2) by blast
  qed
qed

lemma register_distinct:
  assumes "em_ok nv nf em" "\<forall>reg \<in> set regs. reg_ok nv nf reg" "distinct (map fst regs)"
    and "(pq, fid, type, len) \<in> set regs"
  shows "slot_of (register N regs em) pq = Some (fid, Some type)"
proof -
  from register_last_writer [OF assms(1,2,4), of N]
  obtain fid' type' len' where w: "(pq, fid', type', len') \<in> set regs"
    "slot_of (register N regs em) pq = Some (fid', Some type')" by auto
  from assms(3) have "inj_on fst (set regs)" by (simp add: distinct_map)
  from inj_onD [OF this _ w(1) assms(4)] have "(pq, fid', type', len') = (pq, fid, type, len)"
    by simp
  with w(2) show ?thesis by simp
qed

lemma register_other:
  assumes "em_ok nv nf em" "\<forall>reg \<in> set regs. reg_ok nv nf reg" "pq \<notin> fst ` set regs"
    and "slot_of em pq = Some x"
  shows "slot_of (register N regs em) pq = Some x"
  using assms
proof (induction regs rule: rev_induct)
  case Nil
  then show ?case by (simp add: register_def)
next
  case (snoc y regs)
  obtain pq' fid type len where y: "y = (pq', fid, type, len)" by (cases y)
  from snoc.prems have ok: "em_ok nv nf (register N regs em)"
    by (intro register_ok) simp_all
  from snoc have old: "slot_of (register N regs em) pq = Some x" by simp
  from snoc.prems(3) have "pq \<noteq> (fst pq', snd pq')" by (auto simp: y)
  from slot_of_addFaceEdge_other [OF ok this old, of N fid type len]
  show ?case by (simp add: y register_snoc)
qed

lemma addFaceEdges_register:
  assumes "addFaceEdges N mesh fid em = Some em'"
  shows "em' = register N (face_regs N mesh fid) em"
  using assms
  by (simp add: addFaceEdges_def register_def face_regs_def Let_def split: if_splits)

lemma reinsert_register:
  assumes "reinsert N fid mesh em = Some (mesh', em')"
  shows "em' = register N (face_regs N mesh fid @ face_regs N mesh (length (faces mesh) - 1)) em"
proof -
  from assms obtain em1 where 1: "addFaceEdges N mesh fid em = Some em1"
    and 2: "addFaceEdges N mesh (length (faces mesh) - 1) em1 = Some em'"
    by (auto simp: reinsert_def split: option.splits)
  from addFaceEdges_register [OF 1] addFaceEdges_register [OF 2]
  show ?thesis by (simp add: register_def)
qed

lemma face_regs_fst:
  "map fst (face_regs N mesh fid) = map (edge_at (faces mesh ! fid)) [AB, BC, CA]"
  by (simp add: face_regs_def Let_def)

lemma face_regs_mem:
  "(pq, g, type, len) \<in> set (face_regs N mesh fid) \<Longrightarrow>
     g = int fid \<and> pq = edge_at (faces mesh ! fid) type"
  by (auto simp: face_regs_def Let_def)

lemma face_regs_has:
  "\<exists>len. (edge_at (faces mesh ! fid) s, int fid, s, len) \<in> set (face_regs N mesh fid)"
  by (cases s) (auto simp: face_regs_def Let_def)

lemma face_regs_ok:
  assumes "fid < nf" "face_ok nv nt (faces mesh ! fid)"
  shows "\<forall>reg \<in> set (face_regs N mesh fid). reg_ok nv nf reg"
  using assms by (auto simp: face_regs_def Let_def reg_ok_def face_ok_def)


lemma splitEdge_reinsert:
  assumes "splitEdge N fid type vid (mesh, em) = Some (mesh', em')"
  shows "reinsert N fid mesh' em = Some (mesh', em')"
proof (cases type)
  case AB
  with assms show ?thesis
    by (auto simp: splitEdge_def Let_def split: if_splits option.splits dest: reinsert_mesh)
next
  case BC
  with assms show ?thesis
    by (auto simp: splitEdge_def Let_def split: if_splits option.splits dest: reinsert_mesh)
next
  case CA
  with assms show ?thesis
    by (auto simp: splitEdge_def Let_def split: if_splits option.splits dest: reinsert_mesh)
qed

lemma splitEdge_faces:
  assumes "splitEdge N fid type vid (mesh, em) = Some (mesh', em')"
  shows "abc (faces mesh' ! fid) =
           (case type of AB \<Rightarrow> (a (faces mesh ! fid), vid, c (faces mesh ! fid))
                       | BC \<Rightarrow> (a (faces mesh ! fid), b (faces mesh ! fid), vid)
                       | CA \<Rightarrow> (vid, b (faces mesh ! fid), c (faces mesh ! fid))) \<and>
         abc (faces mesh' ! length (faces mesh)) =
           (case type of AB \<Rightarrow> (b (faces mesh ! fid), c (faces mesh ! fid), vid)
                       | BC \<Rightarrow> (c (faces mesh ! fid), a (faces mesh ! fid), vid)
                       | CA \<Rightarrow> (a (faces mesh ! fid), b (faces mesh ! fid), vid))"
proof (cases type)
  case AB
  with assms show ?thesis
    by (auto simp: splitEdge_def Let_def addFace_def Face6_def abc_def nth_append
        split: if_splits option.splits dest!: reinsert_mesh pushMiddle_frame)
next
  case BC
  with assms show ?thesis
    by (auto simp: splitEdge_def Let_def addFace_def Face6_def abc_def nth_append
        split: if_splits option.splits dest!: reinsert_mesh pushMiddle_frame)
next
  case CA
  with assms show ?thesis
    by (auto simp: splitEdge_def Let_def addFace_def Face6_def abc_def nth_append
        split: if_splits option.splits dest!: reinsert_mesh pushMiddle_frame)
qed

lemma edges_of_abc:
  "map (edge_at face) [AB, BC, CA] =
     (case abc face of (x, y, z) \<Rightarrow> [(int x, int y), (int y, int z), (int z, int x)])"
  by (simp add: abc_def)

lemma split_edges_distinct:
  assumes "splitEdge N fid type vid (mesh, em) = Some (mesh', em')"
    and "\<not> degenerate (faces mesh ! fid)"
    and "vid \<notin> {a (faces mesh ! fid), b (faces mesh ! fid), c (faces mesh ! fid)}"
  shows "distinct (map (edge_at (faces mesh' ! fid)) [AB, BC, CA] @
                   map (edge_at (faces mesh' ! length (faces mesh))) [AB, BC, CA])"
  using splitEdge_faces [OF assms(1)] assms(2,3)
  unfolding edges_of_abc degenerate_def
  by (cases type) auto


lemma init_example:
  "addAllFaceEdges real_numerics textured_triangle [0..<length (faces textured_triangle)]
     \<lparr>store = [], emap = Map.empty, heap = []\<rparr> = Some initial_edges"
  by (simp add: addFaceEdges_def addFaceEdge_def Edge_addFace_def Edge_def EdgeKey_def
      push_heap_def push_heap_aux.simps compareEdgePtr_def Face6_def Let_def real_numerics_def
      less_sqrt_iff sqrt_less_iff textured_triangle_def initial_edges_def upt_rec)

lemma pop_example:
  "pop_top_edge real_numerics initial_edges =
     (\<lparr>v1 = 1, v2 = 2, f1 = 0, f2 = - 1, et1 = Some BC, et2 = None, elength = sqrt 8\<rparr>,
      popped_edges)"
  by (simp add: pop_top_edge_def pop_heap_def adjust_heap_def adjust_down.simps
      push_heap_aux.simps compareEdgePtr_def EdgeKey_def Let_def real_numerics_def
      less_sqrt_iff sqrt_less_iff initial_edges_def popped_edges_def fun_upd_twist)

lemma popped_ok:
  "mesh_ok popped_mesh \<and>
   em_ok (length (vertices popped_mesh)) (length (faces popped_mesh)) popped_edges"
  by (auto simp: mesh_ok_def popped_mesh_def textured_triangle_def face_ok_def Face6_def
      em_ok_def popped_edges_def initial_edges_def edge_ok_def slot_ok_def EdgeKey_def
      split: if_splits)

lemma pair_init_example:
  "addAllFaceEdges real_numerics pair_mesh [0..<length (faces pair_mesh)]
     \<lparr>store = [], emap = Map.empty, heap = []\<rparr> = Some pair_edges"
  by (simp add: addFaceEdges_def addFaceEdge_def Edge_addFace_def Edge_def EdgeKey_def
      push_heap_def push_heap_aux.simps compareEdgePtr_def Face3_def Let_def real_numerics_def
      less_sqrt_iff sqrt_less_iff pair_mesh_def pair_edges_def upt_rec)

lemma pair_pop_example:
  "pop_top_edge real_numerics pair_edges =
     (\<lparr>v1 = 0, v2 = 1, f1 = 0, f2 = - 1, et1 = Some AB, et2 = None, elength = 2\<rparr>,
      pair_popped_edges)"
  by (simp add: pop_top_edge_def pop_heap_def adjust_heap_def adjust_down.simps
      push_heap_aux.simps compareEdgePtr_def EdgeKey_def Let_def real_numerics_def
      less_sqrt_iff sqrt_less_iff pair_edges_def pair_popped_edges_def fun_upd_twist)

lemma pair_popped_ok:
  "mesh_ok pair_popped_mesh \<and>
   em_ok (length (vertices pair_popped_mesh)) (length (faces pair_popped_mesh)) pair_popped_edges"
  by (auto simp: mesh_ok_def pair_popped_mesh_def pair_mesh_def face_ok_def Face3_def
      em_ok_def pair_popped_edges_def pair_edges_def edge_ok_def slot_ok_def EdgeKey_def
      split: if_splits)


lemma pair_slots:
  "slot_of pair_popped_edges (1, 2) = Some (0, Some BC)"
  "slot_of pair_popped_edges (2, 1) = Some (1, Some AB)"
  by (simp_all add: slot_of_def pair_popped_edges_def pair_edges_def EdgeKey_def)

text \<open>
  C2: a split step (\<open>splitEdge\<close>, in a state that satisfies the invariant of the main
  loop) re-inserts the three edges of the split face \<open>fid\<close> and of the face appended.
  Afterwards the record of each of these edges references, in the slot selected by the
  endpoint order in which the face presents the edge, a face of the two that presents
  this edge in this order, with the position of the edge in that face. When the face
  split is not degenerate and the new vertex is none of its vertices, that face is the
  presenting face itself. The slots of all other edges and orders, those of unsplit
  neighbouring faces among them, are unchanged.
\<close>

theorem splitEdge_relinks:
  assumes m: "mesh_ok mesh" and ok: "em_ok (length (vertices mesh)) (length (faces mesh)) em"
    and fid: "fid < length (faces mesh)" and vid: "vid < length (vertices mesh)"
  shows "\<exists>mesh' em'. splitEdge N fid type vid (mesh, em) = Some (mesh', em') \<and>
           (\<forall>g \<in> {fid, length (faces mesh)}. \<forall>s.
              \<exists>g' \<in> {fid, length (faces mesh)}. \<exists>s'.
                edge_at (faces mesh' ! g') s' = edge_at (faces mesh' ! g) s \<and>
                slot_of em' (edge_at (faces mesh' ! g) s) = Some (int g', Some s')) \<and>
           (\<not> degenerate (faces mesh ! fid) \<and>
            vid \<notin> {a (faces mesh ! fid), b (faces mesh ! fid), c (faces mesh ! fid)} \<longrightarrow>
              (\<forall>g \<in> {fid, length (faces mesh)}. \<forall>s.
                 slot_of em' (edge_at (faces mesh' ! g) s) = Some (int g, Some s))) \<and>
           (\<forall>pq x. slot_of em pq = Some x \<and>
              (\<forall>g \<in> {fid, length (faces mesh)}. \<forall>s. pq \<noteq> edge_at (faces mesh' ! g) s) \<longrightarrow>
              slot_of em' pq = Some x)"
proof -
  let ?nv = "length (vertices mesh)" and ?nf = "length (faces mesh)"
  from splitEdge_ok [OF m ok fid vid, of N type]
  obtain mesh' em' where split: "splitEdge N fid type vid (mesh, em) = Some (mesh', em')"
    and m': "mesh_ok mesh'" and v': "vertices mesh' = vertices mesh"
    and f': "length (faces mesh') = Suc ?nf"
    by blast
  let ?regs = "face_regs N mesh' fid @ face_regs N mesh' ?nf"
  from reinsert_register [OF splitEdge_reinsert [OF split]]
  have em': "em' = register N ?regs em" by (simp add: f')
  have ok': "em_ok ?nv (Suc ?nf) em" using ok by (auto intro: em_ok_mono)
  have fo: "face_ok ?nv (length (tCoords mesh')) (faces mesh' ! g)" if "g \<in> {fid, ?nf}" for g
    using mesh_ok_nth [OF m', of g] that fid by (auto simp: f' v')
  have regs_ok: "\<forall>reg \<in> set ?regs. reg_ok ?nv (Suc ?nf) reg"
    using face_regs_ok [OF _ fo, of fid "Suc ?nf" N] face_regs_ok [OF _ fo, of ?nf "Suc ?nf" N] fid
    by auto
  have links: "\<exists>g' \<in> {fid, ?nf}. \<exists>s'.
      edge_at (faces mesh' ! g') s' = edge_at (faces mesh' ! g) s \<and>
      slot_of em' (edge_at (faces mesh' ! g) s) = Some (int g', Some s')"
    if g: "g \<in> {fid, ?nf}" for g s
  proof -
    from face_regs_has [of mesh' g s N] g
    obtain len where reg: "(edge_at (faces mesh' ! g) s, int g, s, len) \<in> set ?regs" by auto
    from register_last_writer [OF ok' regs_ok reg, of N, unfolded fst_conv]
    obtain pq' gi type' len' where w: "(pq', gi, type', len') \<in> set ?regs"
      "pq' = edge_at (faces mesh' ! g) s"
      "slot_of (register N ?regs em) (edge_at (faces mesh' ! g) s) = Some (gi, Some type')"
      by blast
    from w(1) have "(gi = int fid \<or> gi = int ?nf) \<and> pq' = edge_at (faces mesh' ! nat gi) type'"
      by (auto dest!: face_regs_mem)
    then have "nat gi \<in> {fid, ?nf}" "int (nat gi) = gi"
      "edge_at (faces mesh' ! nat gi) type' = edge_at (faces mesh' ! g) s"
      using w(2) by auto
    with w(3) show ?thesis
      unfolding em' by (intro bexI [of _ "nat gi"] exI [of _ type']) simp_all
  qed
  have exact: "slot_of em' (edge_at (faces mesh' ! g) s) = Some (int g, Some s)"
    if nd: "\<not> degenerate (faces mesh ! fid)"
      "vid \<notin> {a (faces mesh ! fid), b (faces mesh ! fid), c (faces mesh ! fid)}"
      and g: "g \<in> {fid, ?nf}" for g s
  proof -
    from split_edges_distinct [OF split nd]
    have d: "distinct (map fst ?regs)" by (simp only: map_append face_regs_fst)
    from face_regs_has [of mesh' g s N] g
    obtain len where reg: "(edge_at (faces mesh' ! g) s, int g, s, len) \<in> set ?regs" by auto
    from register_distinct [OF ok' regs_ok d reg, of N] show ?thesis by (simp add: em')
  qed
  have others: "slot_of em' pq = Some x"
    if old: "slot_of em pq = Some x"
      and no: "\<forall>g \<in> {fid, ?nf}. \<forall>s. pq \<noteq> edge_at (faces mesh' ! g) s" for pq x
  proof -
    have "pq \<notin> fst ` set ?regs"
    proof
      assume "pq \<in> fst ` set ?regs"
      then obtain gi type' len where "(pq, gi, type', len) \<in> set ?regs" by force
      then have "(gi = int fid \<or> gi = int ?nf) \<and> pq = edge_at (faces mesh' ! nat gi) type'"
        by (auto dest!: face_regs_mem)
      then have "nat gi \<in> {fid, ?nf}" "pq = edge_at (faces mesh' ! nat gi) type'" by auto
      with no show False by blast
    qed
    from register_other [OF ok' regs_ok this old, of N] show ?thesis by (simp add: em')
  qed
  show ?thesis
  proof (intro exI conjI)
    show "splitEdge N fid type vid (mesh, em) = Some (mesh', em')" by (rule split)
    show "\<forall>g \<in> {fid, ?nf}. \<forall>s. \<exists>g' \<in> {fid, ?nf}. \<exists>s'.
        edge_at (faces mesh' ! g') s' = edge_at (faces mesh' ! g) s \<and>
        slot_of em' (edge_at (faces mesh' ! g) s) = Some (int g', Some s')"
      using links by blast
    show "\<not> degenerate (faces mesh ! fid) \<and>
        vid \<notin> {a (faces mesh ! fid), b (faces mesh ! fid), c (faces mesh ! fid)} \<longrightarrow>
        (\<forall>g \<in> {fid, ?nf}. \<forall>s. slot_of em' (edge_at (faces mesh' ! g) s) = Some (int g, Some s))"
      using exact by blast
    show "\<forall>pq x. slot_of em pq = Some x \<and>
        (\<forall>g \<in> {fid, ?nf}. \<forall>s. pq \<noteq> edge_at (faces mesh' ! g) s) \<longrightarrow>
        slot_of em' pq = Some x"
      using others by blast
  qed
qed


text \<open>
  The two triangles of \<open>pair_mesh\<close>, when the first is split at its edge between
  vertices 0 and 1. The edge shared with the second triangle passes to the face
  appended: its record referenced face 0 for the order \<open>(1, 2)\<close> and references face 2
  afterwards, while its entry for the order \<open>(2, 1)\<close>, that of the neighbour which is not
  split, is as before.
\<close>

theorem splitEdge_relinks_witness:
  "mesh_ok pair_popped_mesh \<and>
   em_ok (length (vertices pair_popped_mesh)) (length (faces pair_popped_mesh)) pair_popped_edges \<and>
   0 < length (faces pair_popped_mesh) \<and> 4 < length (vertices pair_popped_mesh) \<and>
   \<not> degenerate (faces pair_popped_mesh ! 0) \<and>
   4 \<notin> {a (faces pair_popped_mesh ! 0), b (faces pair_popped_mesh ! 0),
         c (faces pair_popped_mesh ! 0)} \<and>
   slot_of pair_popped_edges (1, 2) = Some (0, Some BC) \<and>
   slot_of pair_popped_edges (2, 1) = Some (1, Some AB) \<and>
   (\<exists>mesh' em'. splitEdge real_numerics 0 AB 4 (pair_popped_mesh, pair_popped_edges) =
        Some (mesh', em') \<and>
      abc (faces mesh' ! 0) = (0, 4, 2) \<and> abc (faces mesh' ! 2) = (1, 2, 4) \<and>
      (\<forall>g \<in> {0, 2}. \<forall>s. slot_of em' (edge_at (faces mesh' ! g) s) = Some (int g, Some s)) \<and>
      slot_of em' (1, 2) = Some (2, Some AB) \<and>
      slot_of em' (2, 1) = Some (1, Some AB))"
proof -
  have h: "0 < length (faces pair_popped_mesh)" "4 < length (vertices pair_popped_mesh)"
    and nd: "\<not> degenerate (faces pair_popped_mesh ! 0)"
      "4 \<notin> {a (faces pair_popped_mesh ! 0), b (faces pair_popped_mesh ! 0),
            c (faces pair_popped_mesh ! 0)}"
    and two: "length (faces pair_popped_mesh) = 2"
    and f0: "abc (faces pair_popped_mesh ! 0) = (0, 1, 2)"
    by (simp_all add: pair_popped_mesh_def pair_mesh_def degenerate_def Face3_def abc_def)
  from splitEdge_relinks [OF pair_popped_ok [THEN conjunct1] pair_popped_ok [THEN conjunct2] h,
      of real_numerics AB] nd
  obtain mesh' em' where
    split: "splitEdge real_numerics 0 AB 4 (pair_popped_mesh, pair_popped_edges) = Some (mesh', em')"
    and exact: "\<forall>g \<in> {0, length (faces pair_popped_mesh)}. \<forall>s.
      slot_of em' (edge_at (faces mesh' ! g) s) = Some (int g, Some s)"
    and others: "\<forall>pq x. slot_of pair_popped_edges pq = Some x \<and>
      (\<forall>g \<in> {0, length (faces pair_popped_mesh)}. \<forall>s. pq \<noteq> edge_at (faces mesh' ! g) s) \<longrightarrow>
      slot_of em' pq = Some x"
    by blast
  from splitEdge_faces [OF split] f0
  have fs: "abc (faces mesh' ! 0) = (0, 4, 2)" "abc (faces mesh' ! 2) = (1, 2, 4)"
    by (simp_all add: two abc_def)
  have new: "edge_at (faces mesh' ! 2) AB = (1, 2)"
    using fs(2) by (simp add: abc_def)
  from exact have "\<forall>s. slot_of em' (edge_at (faces mesh' ! 2) s) = Some (int 2, Some s)"
    by (simp add: two)
  then have "slot_of em' (edge_at (faces mesh' ! 2) AB) = Some (int 2, Some AB)"
    by (rule spec)
  then have relinked: "slot_of em' (1, 2) = Some (2, Some AB)"
    by (simp only: new) simp
  have "(2, 1) \<noteq> edge_at (faces mesh' ! g) s" if "g \<in> {0, 2}" for g s
    using that fs by (cases s) (auto simp: abc_def)
  then have "\<forall>g \<in> {0, length (faces pair_popped_mesh)}. \<forall>s. (2, 1) \<noteq> edge_at (faces mesh' ! g) s"
    by (simp add: two)
  with others pair_slots(2) have kept: "slot_of em' (2, 1) = Some (1, Some AB)"
    by blast
  from exact have "\<forall>g \<in> {0, 2}. \<forall>s. slot_of em' (edge_at (faces mesh' ! g) s) = Some (int g, Some s)"
    by (simp add: two)
  with split fs relinked kept pair_popped_ok h nd pair_slots show ?thesis by blast
qed

section \<open>Properties of the PLY reader\<close>




























end
